theory Spec2Isabelle
  imports Complex_Main "HOL-Library.AList" "HOL-Library.Multiset"
begin

section \<open>WireLab: the circuit analysis engine of \<open>wiring-app/src/App.js\<close>\<close>

text \<open>
  Conventions of the embedding.
  \<^item> Identifiers, terminal families, component variants and conductor kinds are JavaScript
    strings in the source and \<open>string\<close> here; a JavaScript string is falsy exactly when it
    is empty, and the source's truthiness tests on identifiers are kept (\<open>truthy\<close>).
  \<^item> A value that may be \<open>undefined\<close> or \<open>null\<close> is an \<open>option\<close>.
  \<^item> JavaScript numbers are modelled by \<open>real\<close>; rounding of IEEE doubles is not modelled.
  \<^item> A JavaScript \<open>Map\<close> is an association list in insertion order (\<open>AList.update\<close>
    replaces in place or appends, as \<open>Map.set\<close> does); a JavaScript \<open>Set\<close> is a list
    without repetition in insertion order.
  \<^item> \<open>newId()\<close> draws a random identifier; operations that call it take the fresh
    identifiers as arguments, in the order the source draws them.
\<close>

subsection \<open>Data model\<close>

record terminal =
  tid :: string
  tname :: string
  ttype :: string
  dx :: real
  dy :: real

text \<open>\<open>internalLinks\<close> is a function of the component (every such function in the
  source reads \<open>self.state\<close> only), an array of name pairs, or absent. The fields
  \<open>label\<close>, \<open>hidden\<close> and \<open>showHandles\<close> of a component are read by the renderer only
  and are left out.\<close>

datatype 'st links =
    LinkFun "'st option \<Rightarrow> (string \<times> string) list"
  | LinkArray "(string \<times> string) list"
  | LinkAbsent

record 'st component =
  cid :: string
  ctype :: string
  cx :: real
  cy :: real
  terminals :: "terminal list"
  state :: "'st option"
  internalLinks :: "'st links"

record wire =
  wid :: string
  wa :: string
  wb :: string
  kind :: string
  fault :: "string option"
  sizeMm2 :: "real option"
  ampacityA :: "real option"
  cableType :: "string option"
  wlabel :: "string option"
  lengthM :: "real option"
  switchedLive :: bool

definition truthy :: "string \<Rightarrow> bool" where
  "truthy s = (s \<noteq> [])"

definition SYSTEM_V :: real where
  "SYSTEM_V = 230"

definition LineTermTypes :: "string set" where
  "LineTermTypes = {''L'', ''LIN'', ''LOUT'', ''COM'', ''L1'', ''L2''}"

definition NeutralTermTypes :: "string set" where
  "NeutralTermTypes = {''N'', ''NIN'', ''NOUT''}"

definition EarthTermTypes :: "string set" where
  "EarthTermTypes = {''E'', ''EIN'', ''EOUT''}"

definition PX_PER_M :: real where
  "PX_PER_M = 100"

definition CONTACT_R :: real where
  "CONTACT_R = 2 / 100"

text \<open>\<open>R_PER_M[conductorKey] ?? 0.02\<close>\<close>

definition R_PER_M :: "string \<Rightarrow> real" where
  "R_PER_M key = (if key = ''L'' then 2 / 100 else if key = ''N'' then 2 / 100
                  else if key = ''E'' then 3 / 100 else 2 / 100)"

text \<open>\<open>getRPerM(s) = R_PER_M_BY_SIZE[s] ?? null\<close>\<close>

definition getRPerM :: "real \<Rightarrow> real option" where
  "getRPerM s =
     (if s = 1 then Some (180 / 10000)
      else if s = 15 / 10 then Some (121 / 10000)
      else if s = 25 / 10 then Some (741 / 100000)
      else if s = 6 then Some (310 / 100000)
      else if s = 10 then Some (183 / 100000)
      else if s = 16 then Some (115 / 100000)
      else if s = 25 then Some (69 / 100000)
      else None)"

subsection \<open>Lookup helpers\<close>

text \<open>\<open>c.terminals.find(t => t.name === n)\<close>\<close>

definition findByName :: "terminal list \<Rightarrow> string \<Rightarrow> terminal option" where
  "findByName ts n = find (\<lambda>t. tname t = n) ts"

definition termIdByName :: "'st component \<Rightarrow> string \<Rightarrow> string option" where
  "termIdByName c n = map_option tid (findByName (terminals c) n)"

text \<open>\<open>terminalById\<close>: the first component, in order, owning a terminal with the
  identifier, and that terminal.\<close>

fun terminalById :: "'st component list \<Rightarrow> string \<Rightarrow> ('st component \<times> terminal) option" where
  "terminalById [] i = None"
| "terminalById (c # cs) i =
     (case find (\<lambda>t. tid t = i) (terminals c) of
        Some t \<Rightarrow> Some (c, t)
      | None \<Rightarrow> terminalById cs i)"

text \<open>The evaluated internal links of a component:
  \<open>typeof c.internalLinks === "function" ? c.internalLinks(c) : c.internalLinks || []\<close>.\<close>

definition linksOf :: "'st component \<Rightarrow> (string \<times> string) list" where
  "linksOf c =
     (case internalLinks c of
        LinkFun f \<Rightarrow> f (state c)
      | LinkArray l \<Rightarrow> l
      | LinkAbsent \<Rightarrow> [])"

text \<open>\<open>termTypeById\<close>: filled by \<open>Map.set\<close> over every terminal of every component, so a
  later terminal with the same identifier overwrites an earlier one.\<close>

definition termTypeById :: "'st component list \<Rightarrow> string \<Rightarrow> string option" where
  "termTypeById comps =
     foldl (\<lambda>m t. m(tid t \<mapsto> ttype t)) Map.empty (concat (map terminals comps))"

text \<open>\<open>allowedTermTypes.has(x)\<close> where \<open>x\<close> may be \<open>undefined\<close>.\<close>

definition hasType :: "string set \<Rightarrow> string option \<Rightarrow> bool" where
  "hasType allowed x = (case x of None \<Rightarrow> False | Some ty \<Rightarrow> ty \<in> allowed)"

subsection \<open>Unweighted graphs\<close>

type_synonym graph = "(string \<times> string list) list"

definition hasKey :: "('k \<times> 'v) list \<Rightarrow> 'k \<Rightarrow> bool" where
  "hasKey m k = (k \<in> fst ` set m)"

text \<open>\<open>g.get(v) || []\<close>\<close>

definition getOrEmpty :: "('k \<times> 'v list) list \<Rightarrow> 'k \<Rightarrow> 'v list" where
  "getOrEmpty m k = (case map_of m k of None \<Rightarrow> [] | Some s \<Rightarrow> s)"

text \<open>\<open>Set.add\<close>\<close>

definition setAdd :: "'a \<Rightarrow> 'a list \<Rightarrow> 'a list" where
  "setAdd x xs = (if x \<in> set xs then xs else xs @ [x])"

text \<open>The local helper \<open>add\<close> / \<open>addEdge\<close> of \<open>buildTypedSubgraph\<close> and
  \<open>buildAdjacency\<close>.\<close>

definition addEdge :: "graph \<Rightarrow> string \<Rightarrow> string \<Rightarrow> graph" where
  "addEdge m a b =
     (let m1 = (if \<not> hasKey m a then AList.update a [] m else m);
          m2 = (if \<not> hasKey m1 b then AList.update b [] m1 else m1);
          m3 = AList.update a (setAdd b (getOrEmpty m2 a)) m2;
          m4 = AList.update b (setAdd a (getOrEmpty m3 b)) m3
      in m4)"

definition addLink :: "terminal list \<Rightarrow> graph \<Rightarrow> string \<times> string \<Rightarrow> graph" where
  "addLink ts g l =
     (case (findByName ts (fst l), findByName ts (snd l)) of
        (Some t1, Some t2) \<Rightarrow> addEdge g (tid t1) (tid t2)
      | _ \<Rightarrow> g)"

definition buildAdjacency :: "'st component list \<Rightarrow> wire list \<Rightarrow> graph" where
  "buildAdjacency comps wires =
     (let adj = foldl (\<lambda>g w. addEdge g (wa w) (wb w)) [] wires
      in foldl (\<lambda>g c. foldl (addLink (terminals c)) g (linksOf c)) adj comps)"

definition addTypedLink :: "string set \<Rightarrow> terminal list \<Rightarrow> graph \<Rightarrow> string \<times> string \<Rightarrow> graph" where
  "addTypedLink allowed ts g l =
     (case (findByName ts (fst l), findByName ts (snd l)) of
        (Some t1, Some t2) \<Rightarrow>
          if ttype t1 \<in> allowed \<and> ttype t2 \<in> allowed then addEdge g (tid t1) (tid t2) else g
      | _ \<Rightarrow> g)"

definition buildTypedSubgraph :: "'st component list \<Rightarrow> wire list \<Rightarrow> string set \<Rightarrow> graph" where
  "buildTypedSubgraph comps wires allowedTermTypes =
     (let termType = termTypeById comps;
          g = foldl (\<lambda>g w.
                 if hasType allowedTermTypes (termType (wa w)) \<and>
                    hasType allowedTermTypes (termType (wb w))
                 then addEdge g (wa w) (wb w) else g) [] wires
      in foldl (\<lambda>g c. foldl (addTypedLink allowedTermTypes (terminals c)) g (linksOf c)) g comps)"

subsection \<open>Weighted graphs\<close>

type_synonym wgraph = "(string \<times> (string \<times> real) list) list"

text \<open>\<open>componentTerminalAbsPos\<close>, \<open>terminalAbsPosById\<close>, \<open>Math.hypot\<close> and
  \<open>pxDistanceBetweenTerminals\<close>; the latter returns \<open>Infinity\<close> (here \<open>None\<close>) when a
  terminal is missing.\<close>

record point =
  px :: real
  py :: real

definition componentTerminalAbsPos :: "'st component \<Rightarrow> terminal \<Rightarrow> point" where
  "componentTerminalAbsPos c t = \<lparr>px = cx c + dx t, py = cy c + dy t\<rparr>"

definition terminalAbsPosById :: "'st component list \<Rightarrow> string \<Rightarrow> point option" where
  "terminalAbsPosById comps i =
     (case terminalById comps i of
        None \<Rightarrow> None
      | Some (c, t) \<Rightarrow> Some (componentTerminalAbsPos c t))"

definition hypot :: "real \<Rightarrow> real \<Rightarrow> real" where
  "hypot x y = sqrt (x * x + y * y)"

definition pxDistanceBetweenTerminals :: "'st component list \<Rightarrow> string \<Rightarrow> string \<Rightarrow> real option" where
  "pxDistanceBetweenTerminals comps a b =
     (case (terminalAbsPosById comps a, terminalAbsPosById comps b) of
        (Some pa, Some pb) \<Rightarrow> Some (hypot (px pa - px pb) (py pa - py pb))
      | _ \<Rightarrow> None)"

text \<open>The local helper \<open>add\<close> of \<open>buildWeightedSubgraph\<close>: arrays, so parallel edges are
  kept.\<close>

definition addW :: "wgraph \<Rightarrow> string \<Rightarrow> string \<Rightarrow> real \<Rightarrow> wgraph" where
  "addW g a b w =
     (let g1 = (if \<not> hasKey g a then AList.update a [] g else g);
          g2 = (if \<not> hasKey g1 b then AList.update b [] g1 else g1);
          g3 = AList.update a (getOrEmpty g2 a @ [(b, w)]) g2;
          g4 = AList.update b (getOrEmpty g3 b @ [(a, w)]) g3
      in g4)"

text \<open>\<open>(w.sizeMm2 && getRPerM(w.sizeMm2)) ?? (R_PER_M[conductorKey] ?? 0.02)\<close>: a size of
  \<open>0\<close> is falsy but not nullish, so it yields \<open>0\<close>.\<close>

definition rPerMOf :: "wire \<Rightarrow> string \<Rightarrow> real" where
  "rPerMOf w conductorKey =
     (case sizeMm2 w of
        None \<Rightarrow> R_PER_M conductorKey
      | Some s \<Rightarrow>
          if s = 0 then 0
          else (case getRPerM s of Some r \<Rightarrow> r | None \<Rightarrow> R_PER_M conductorKey))"

definition isMatch :: "wire \<Rightarrow> string \<Rightarrow> bool" where
  "isMatch w conductorKey =
     (let k = (if switchedLive w then ''L'' else kind w)
      in k = ''GEN'' \<or> (conductorKey = ''L'' \<and> k = ''L'') \<or>
         (conductorKey = ''N'' \<and> k = ''N'') \<or> (conductorKey = ''E'' \<and> k = ''E''))"

text \<open>One iteration of the loop over the wires. Where the geometric distance is needed both
  terminals exist, because their families were found in \<open>termTypeById\<close> (lemma
  \<open>pxDistance_defined\<close> below), so the branch for a missing terminal is never taken; it
  leaves the graph as it is.\<close>

definition addWire :: "'st component list \<Rightarrow> string set \<Rightarrow> string \<Rightarrow> wgraph \<Rightarrow> wire \<Rightarrow> wgraph" where
  "addWire comps allowedTermTypes conductorKey g w =
     (if fault w = Some ''open'' then g
      else if \<not> hasType allowedTermTypes (termTypeById comps (wa w)) \<or>
              \<not> hasType allowedTermTypes (termTypeById comps (wb w)) then g
      else if \<not> isMatch w conductorKey then g
      else
        (case (case lengthM w of
                 Some l \<Rightarrow> if l > 0 then Some l
                           else map_option (\<lambda>d. d / PX_PER_M) (pxDistanceBetweenTerminals comps (wa w) (wb w))
               | None \<Rightarrow> map_option (\<lambda>d. d / PX_PER_M) (pxDistanceBetweenTerminals comps (wa w) (wb w))) of
           None \<Rightarrow> g
         | Some dist_m \<Rightarrow>
             (let rw = dist_m * rPerMOf w conductorKey + 2 * CONTACT_R;
                  rw' = (if fault w = Some ''hr'' then rw + 1 else rw)
              in addW g (wa w) (wb w) rw')))"

definition addWeightedLink :: "string set \<Rightarrow> terminal list \<Rightarrow> wgraph \<Rightarrow> string \<times> string \<Rightarrow> wgraph" where
  "addWeightedLink allowed ts g l =
     (case (findByName ts (fst l), findByName ts (snd l)) of
        (Some t1, Some t2) \<Rightarrow>
          if ttype t1 \<in> allowed \<and> ttype t2 \<in> allowed
          then addW g (tid t1) (tid t2) CONTACT_R else g
      | _ \<Rightarrow> g)"

definition buildWeightedSubgraph ::
  "'st component list \<Rightarrow> wire list \<Rightarrow> string set \<Rightarrow> string \<Rightarrow> wgraph" where
  "buildWeightedSubgraph comps wires allowedTermTypes conductorKey =
     (let g = foldl (addWire comps allowedTermTypes conductorKey) [] wires
      in foldl (\<lambda>g c. foldl (addWeightedLink allowedTermTypes (terminals c)) g (linksOf c)) g comps)"

subsection \<open>Breadth-first reachability\<close>

text \<open>The inner loop of \<open>bfs\<close> and \<open>bfsSet\<close> over the neighbours of the dequeued node. The
  two source loops differ in one guard: \<open>bfsSet\<close> skips a falsy neighbour (\<open>u && ...\<close>),
  \<open>bfs\<close> does not; \<open>ok\<close> is that guard. The queue and the visited set are threaded.\<close>

fun bfsVisit :: "(string \<Rightarrow> bool) \<Rightarrow> string list \<Rightarrow> string list \<times> string list \<Rightarrow> string list \<times> string list" where
  "bfsVisit ok [] st = st"
| "bfsVisit ok (u # us) (q, seen) =
     (if ok u \<and> u \<notin> set seen then bfsVisit ok us (q @ [u], seen @ [u])
      else bfsVisit ok us (q, seen))"

definition targets :: "graph \<Rightarrow> string set" where
  "targets g = \<Union> (set ` snd ` set g)"

lemma bfsVisit_shape:
  "\<exists>new. bfsVisit ok us (q, seen) = (q @ new, seen @ new) \<and> set new \<subseteq> set us - set seen
         \<and> distinct new"
proof (induction us arbitrary: q seen)
  case Nil
  show ?case by simp
next
  case (Cons u us)
  show ?case
  proof (cases "ok u \<and> u \<notin> set seen")
    case True
    from Cons.IH [of "q @ [u]" "seen @ [u]"] obtain new where
      n: "bfsVisit ok us (q @ [u], seen @ [u]) = ((q @ [u]) @ new, (seen @ [u]) @ new)"
         "set new \<subseteq> set us - set (seen @ [u])" "distinct new"
      by blast
    have "bfsVisit ok (u # us) (q, seen) = (q @ (u # new), seen @ (u # new))"
      using True n(1) by simp
    moreover have "set (u # new) \<subseteq> set (u # us) - set seen"
      using True n(2) by auto
    moreover have "distinct (u # new)"
      using n(2,3) by auto
    ultimately show ?thesis by blast
  next
    case False
    from Cons.IH [of q seen] obtain new where
      n: "bfsVisit ok us (q, seen) = (q @ new, seen @ new)"
         "set new \<subseteq> set us - set seen" "distinct new"
      by blast
    have "bfsVisit ok (u # us) (q, seen) = (q @ new, seen @ new)"
      using False n(1) by auto
    moreover have "set new \<subseteq> set (u # us) - set seen"
      using n(2) by auto
    ultimately show ?thesis using n(3) by blast
  qed
qed

lemma getOrEmpty_targets: "set (getOrEmpty g v) \<subseteq> targets g"
proof
  fix x assume "x \<in> set (getOrEmpty g v)"
  then obtain s where s: "map_of g v = Some s" "x \<in> set s"
    by (cases "map_of g v") (auto simp: getOrEmpty_def)
  then have "(v, s) \<in> set g" by (auto dest: map_of_SomeD)
  then have "s \<in> snd ` set g" by force
  with s(2) show "x \<in> targets g" by (auto simp: targets_def)
qed

lemma finite_targets: "finite (targets g)"
  by (simp add: targets_def)

lemma bfsVisit_decreases:
  assumes "bfsVisit ok (getOrEmpty g v) (q, seen) = (q', seen')"
  shows "((card (targets g - set seen'), length q'), (card (targets g - set seen), Suc (length q)))
         \<in> less_than <*lex*> less_than"
proof -
  from bfsVisit_shape [of ok "getOrEmpty g v" q seen] obtain new where
    n: "bfsVisit ok (getOrEmpty g v) (q, seen) = (q @ new, seen @ new)"
       "set new \<subseteq> set (getOrEmpty g v) - set seen"
    by blast
  with assms have eq: "q' = q @ new" "seen' = seen @ new" by auto
  show ?thesis
  proof (cases "new = []")
    case True
    then show ?thesis using eq by simp
  next
    case False
    then obtain y where y: "y \<in> set new" by (cases new) auto
    with n(2) getOrEmpty_targets [of g v] have "y \<in> targets g - set seen" by auto
    moreover have "targets g - set seen' \<subseteq> targets g - set seen" using eq by auto
    moreover have "y \<notin> targets g - set seen'" using y eq by auto
    ultimately have "targets g - set seen' \<subset> targets g - set seen" by blast
    then have "card (targets g - set seen') < card (targets g - set seen)"
      by (intro psubset_card_mono) (auto simp: finite_targets)
    then show ?thesis by simp
  qed
qed

function bfsLoop :: "(string \<Rightarrow> bool) \<Rightarrow> graph \<Rightarrow> string list \<Rightarrow> string list \<Rightarrow> string list" where
  "bfsLoop ok g [] seen = seen"
| "bfsLoop ok g (v # q) seen =
     (case bfsVisit ok (getOrEmpty g v) (q, seen) of (q', seen') \<Rightarrow> bfsLoop ok g q' seen')"
  by pat_completeness auto
termination
proof (relation "inv_image (less_than <*lex*> less_than)
         (\<lambda>(ok, g, q, seen). (card (targets g - set seen), length q))", goal_cases)
  case 1
  show ?case by (intro wf_inv_image wf_lex_prod wf_less_than)
next
  case (2 ok g v q seen x y)
  then have "bfsVisit ok (getOrEmpty g v) (q, seen) = (x, y)" by simp
  from bfsVisit_decreases [OF this] this show ?case by simp
qed

text \<open>\<open>bfs(adj, startId)\<close>\<close>

definition bfs :: "graph \<Rightarrow> string \<Rightarrow> string list" where
  "bfs adj startId = bfsLoop (\<lambda>u. True) adj [startId] [startId]"

text \<open>\<open>bfsSet(g, startId)\<close> on a graph whose neighbour entries are identifiers (the graphs
  of \<open>buildTypedSubgraph\<close>).\<close>

definition bfsSet :: "graph \<Rightarrow> string \<Rightarrow> string list" where
  "bfsSet g startId =
     (if \<not> truthy startId \<or> \<not> hasKey g startId then []
      else bfsLoop truthy g [startId] [startId])"

subsection \<open>Voltage model\<close>

record voltage =
  Va :: "real option"
  Vb :: "real option"
  Vab :: "real option"

text \<open>\<open>components.find(SUPPLY) || components.find(CONSUMER_UNIT or CONSUMER_UNIT_SPLIT)\<close>\<close>

definition findSupply :: "'st component list \<Rightarrow> 'st component option" where
  "findSupply comps =
     (case find (\<lambda>c. ctype c = ''SUPPLY'') comps of
        Some c \<Rightarrow> Some c
      | None \<Rightarrow> find (\<lambda>c. ctype c = ''CONSUMER_UNIT'' \<or> ctype c = ''CONSUMER_UNIT_SPLIT'') comps)"

text \<open>\<open>terminalById(components, termIdByName(supply, name) ||
  supply.terminals.find(t => t.t === ty)?.id)?.term?.id\<close>\<close>

definition supplyTerminal :: "'st component list \<Rightarrow> 'st component \<Rightarrow> string \<Rightarrow> string \<Rightarrow> string option" where
  "supplyTerminal comps supply name ty =
     (let byType = map_option tid (find (\<lambda>t. ttype t = ty) (terminals supply));
          wanted = (case termIdByName supply name of
                      Some i \<Rightarrow> if truthy i then Some i else byType
                    | None \<Rightarrow> byType)
      in case wanted of
           None \<Rightarrow> None
         | Some i \<Rightarrow> map_option (\<lambda>hit. tid (snd hit)) (terminalById comps i))"

text \<open>\<open>supplyX ? reach(gX, supplyX) : new Set()\<close>\<close>

definition reachFromSupply :: "graph \<Rightarrow> string option \<Rightarrow> string list" where
  "reachFromSupply g s =
     (case s of
        None \<Rightarrow> []
      | Some i \<Rightarrow> if truthy i then bfsSet g i else [])"

definition lineReach :: "'st component list \<Rightarrow> wire list \<Rightarrow> 'st component \<Rightarrow> string list" where
  "lineReach comps wires supply =
     reachFromSupply (buildTypedSubgraph comps wires LineTermTypes)
       (supplyTerminal comps supply ''L'' ''L'')"

definition neutralReach :: "'st component list \<Rightarrow> wire list \<Rightarrow> 'st component \<Rightarrow> string list" where
  "neutralReach comps wires supply =
     reachFromSupply (buildTypedSubgraph comps wires NeutralTermTypes)
       (supplyTerminal comps supply ''N'' ''N'')"

definition earthReach :: "'st component list \<Rightarrow> wire list \<Rightarrow> 'st component \<Rightarrow> string list" where
  "earthReach comps wires supply =
     reachFromSupply (buildTypedSubgraph comps wires EarthTermTypes)
       (supplyTerminal comps supply ''E'' ''E'')"

text \<open>\<open>nodeV\<close>\<close>

definition nodeV :: "string list \<Rightarrow> string list \<Rightarrow> string list \<Rightarrow> string \<Rightarrow> real option" where
  "nodeV rL rN rE i =
     (if i \<in> set rL then Some SYSTEM_V
      else if i \<in> set rN \<or> i \<in> set rE then Some 0
      else None)"

definition measureVoltage :: "'st component list \<Rightarrow> wire list \<Rightarrow> string \<Rightarrow> string \<Rightarrow> voltage option" where
  "measureVoltage comps wires a b =
     (case findSupply comps of
        None \<Rightarrow> None
      | Some supply \<Rightarrow>
          (let rL = lineReach comps wires supply;
               rN = neutralReach comps wires supply;
               rE = earthReach comps wires supply;
               va = nodeV rL rN rE a;
               vb = nodeV rL rN rE b
           in case (va, vb) of
                (Some x, Some y) \<Rightarrow> Some \<lparr>Va = va, Vb = vb, Vab = Some \<bar>x - y\<bar>\<rparr>
              | _ \<Rightarrow> Some \<lparr>Va = va, Vb = vb, Vab = None\<rparr>))"

subsection \<open>Shorts reported by the analysis\<close>

text \<open>The part of the \<open>analysis\<close> memo that fills \<open>results.shorts\<close> and
  \<open>results.neShort\<close>. An entry \<open>{between: "L-N", path: true}\<close> is \<open>ShortLN\<close>, an entry
  \<open>{between: "L-E", path: true}\<close> is \<open>ShortLE\<close> (the source writes the labels with an en
  dash).\<close>

datatype short = ShortLN | ShortLE

record analysisResult =
  shorts :: "short list"
  neShort :: bool

text \<open>\<open>supplyX ? reachFrom(supplyX) : new Set()\<close> and \<open>set.has(x)\<close> for an \<open>x\<close> that may
  be \<open>undefined\<close>.\<close>

definition reachFrom :: "graph \<Rightarrow> string option \<Rightarrow> string list" where
  "reachFrom adj s =
     (case s of
        None \<Rightarrow> []
      | Some i \<Rightarrow> if truthy i then bfs adj i else [])"

definition truthyOpt :: "string option \<Rightarrow> bool" where
  "truthyOpt s = (case s of None \<Rightarrow> False | Some i \<Rightarrow> truthy i)"

definition hasOpt :: "string list \<Rightarrow> string option \<Rightarrow> bool" where
  "hasOpt xs s = (case s of None \<Rightarrow> False | Some i \<Rightarrow> i \<in> set xs)"

definition analysis :: "'st component list \<Rightarrow> wire list \<Rightarrow> analysisResult" where
  "analysis comps wires =
     (case find (\<lambda>c. ctype c = ''SUPPLY'') comps of
        None \<Rightarrow> \<lparr>shorts = [], neShort = False\<rparr>
      | Some supply \<Rightarrow>
          (let supplyL = termIdByName supply ''L'';
               supplyN = termIdByName supply ''N'';
               supplyE = termIdByName supply ''E'';
               adj = buildAdjacency comps wires;
               reachL = reachFrom adj supplyL;
               reachN = reachFrom adj supplyN;
               s1 = (if truthyOpt supplyL \<and> hasOpt reachL supplyN then [ShortLN] else []);
               s2 = (if truthyOpt supplyL \<and> hasOpt reachL supplyE then s1 @ [ShortLE] else s1)
           in \<lparr>shorts = s2, neShort = (truthyOpt supplyN \<and> hasOpt reachN supplyE)\<rparr>))"

subsection \<open>Cable sizing\<close>

definition requiredCSAForTerminal :: "'st component \<Rightarrow> terminal \<Rightarrow> string \<Rightarrow> real" where
  "requiredCSAForTerminal c t region =
     (let isE = (ttype t \<in> EarthTermTypes);
          isLN = (ttype t \<in> LineTermTypes \<or> ttype t \<in> NeutralTermTypes);
          UK = (region = ''UK'');
          LIGHT_LN = (if UK then 1 else 15 / 10);
          LIGHT_E = (if UK then 1 else 15 / 10);
          ty = ctype c
      in if \<not> isE \<and> \<not> isLN then 0
         else if ty \<in> {''SOCKET_1G'', ''SOCKET_2G'', ''SOCKET_2G_SWITCHED'', ''SOCKET_RCD_1G'',
                        ''OUTDOOR_SOCKET_RCD''}
           then (if isE then 15 / 10 else 25 / 10)
         else if ty \<in> {''FCU_UNSWITCHED'', ''FCU_SWITCHED''}
           then (if isE then 15 / 10 else 25 / 10)
         else if ty = ''CCU_45A'' then (if isE then 25 / 10 else 6)
         else if ty = ''EVSE_1P_7kW'' then (if isE then 25 / 10 else 6)
         else if ty = ''EVSE_3P_11_22kW'' then (if isE then 6 else 10)
         else if ty \<in> {''LAMP'', ''CEILING_ROSE'', ''GARDEN_LIGHT'', ''SWITCH_1WAY'', ''SWITCH_2WAY'',
                        ''SWITCH_INTERMEDIATE''}
           then (if isE then LIGHT_E else LIGHT_LN)
         else if ty = ''SUPPLY'' then (if UK then (if isE then 16 else 25) else 0)
         else if ty \<in> {''CONSUMER_UNIT'', ''CONSUMER_UNIT_SPLIT''}
           then (if UK \<and> (tname t = ''L'' \<or> tname t = ''N'' \<or> tname t = ''E'')
                 then (if tname t = ''E'' then 16 else 25) else 0)
         else 0)"

definition wireRequiredMinCSA :: "'st component list \<Rightarrow> wire \<Rightarrow> string \<Rightarrow> real" where
  "wireRequiredMinCSA comps w region =
     (case (terminalById comps (wa w), terminalById comps (wb w)) of
        (Some ta, Some tb) \<Rightarrow>
          (let ra = requiredCSAForTerminal (fst ta) (snd ta) region;
               rb = requiredCSAForTerminal (fst tb) (snd tb) region;
               req = max (max ra rb) 0
           in if region = ''UK'' \<and> cableType w = Some ''Bonding'' \<and> kind w = ''E''
              then max req 10 else req)
      | _ \<Rightarrow> 0)"

text \<open>\<open>isWireUndersized(components, w, region = 'UK')\<close>: an omitted region is \<open>None\<close> and
  defaults to \<open>UK\<close>, so the test \<open>region === undefined\<close> never holds; \<open>!w.sizeMm2\<close> holds for
  a missing size and for the size \<open>0\<close>; \<open>!req\<close> holds for the requirement \<open>0\<close>.\<close>

definition isWireUndersized :: "'st component list \<Rightarrow> wire \<Rightarrow> string option \<Rightarrow> bool" where
  "isWireUndersized comps w region =
     (let region' = (case region of None \<Rightarrow> ''UK'' | Some r \<Rightarrow> r);
          req = wireRequiredMinCSA comps w region'
      in case sizeMm2 w of
           None \<Rightarrow> False
         | Some s \<Rightarrow> if s = 0 \<or> req = 0 then False else s + 1 / 1000000 < req)"

subsection \<open>Wire cut\<close>

record projection = point +
  pt :: real

definition projectPointOnSegment :: "point \<Rightarrow> point \<Rightarrow> point \<Rightarrow> projection" where
  "projectPointOnSegment p segA segB =
     (let abx = px segB - px segA; aby = py segB - py segA;
          apx = px p - px segA; apy = py p - py segA;
          ab2 = abx * abx + aby * aby
      in if ab2 = 0 then \<lparr>px = px segA, py = py segA, pt = 0\<rparr>
         else (let t = max 0 (min 1 ((apx * abx + apy * aby) / ab2))
               in \<lparr>px = px segA + t * abx, py = py segA + t * aby, pt = t\<rparr>))"

text \<open>The identifiers drawn by \<open>newId()\<close> in \<open>cutWireAt\<close>, in the order of the calls.\<close>

record freshIds =
  junctionId :: string
  terminal1Id :: string
  terminal2Id :: string
  wire1Id :: string
  wire2Id :: string

record 'st cutResult =
  junction :: "'st component"
  removedWireId :: string
  newWires :: "wire list"

definition mapKindToTerm :: "string \<Rightarrow> string option" where
  "mapKindToTerm k =
     (if k = ''L'' then Some ''L'' else if k = ''N'' then Some ''N''
      else if k = ''E'' then Some ''E'' else None)"

text \<open>\<open>cutWireAt(wire, point, options)\<close>, with the component collection it closes over and
  the fresh identifiers as arguments. \<open>snapTolerance\<close> is \<open>options.snapTolerance\<close>, \<open>8\<close> when
  omitted. The object spread \<open>{...wire, id, b}\<close> copies every field of the wire and then
  overrides the two named ones.\<close>

definition cutWireAt ::
  "'st component list \<Rightarrow> freshIds \<Rightarrow> wire \<Rightarrow> point \<Rightarrow> real option \<Rightarrow> 'st cutResult option" where
  "cutWireAt comps ids w p snapTolerance =
     (let tol = (case snapTolerance of None \<Rightarrow> 8 | Some t \<Rightarrow> t)
      in case (terminalById comps (wa w), terminalById comps (wb w)) of
           (Some a, Some b) \<Rightarrow>
             (let pa = componentTerminalAbsPos (fst a) (snd a);
                  pb = componentTerminalAbsPos (fst b) (snd b);
                  distToA = hypot (px p - px pa) (py p - py pa);
                  distToB = hypot (px p - px pb) (py p - py pb)
              in if distToA < tol \<or> distToB < tol then None
                 else
                   (let proj = projectPointOnSegment p pa pb;
                        fromEndpointType = ttype (snd a);
                        terminalType =
                          (if truthy fromEndpointType then fromEndpointType
                           else (case mapKindToTerm (kind w) of Some k \<Rightarrow> k | None \<Rightarrow> ''L''));
                        jn = \<lparr>cid = junctionId ids, ctype = ''JUNCTION'',
                              cx = px proj, cy = py proj,
                              terminals =
                                [\<lparr>tid = terminal1Id ids, tname = terminalType @ ''1'',
                                   ttype = terminalType, dx = - 2, dy = 0\<rparr>,
                                 \<lparr>tid = terminal2Id ids, tname = terminalType @ ''2'',
                                   ttype = terminalType, dx = 2, dy = 0\<rparr>],
                              state = None,
                              internalLinks = LinkArray [(terminalType @ ''1'', terminalType @ ''2'')]\<rparr>;
                        wire1 = w\<lparr>wid := wire1Id ids, wb := terminal1Id ids\<rparr>;
                        wire2 = w\<lparr>wid := wire2Id ids, wa := terminal2Id ids\<rparr>
                    in Some \<lparr>junction = jn, removedWireId = wid w, newWires = [wire1, wire2]\<rparr>))
         | _ \<Rightarrow> None)"

subsection \<open>Shortest-resistance path\<close>

text \<open>A distance read with \<open>dist.get(v) ?? Infinity\<close> is finite or \<open>Infinity\<close>.\<close>

datatype xreal = Fin real | Infinity

fun xless :: "xreal \<Rightarrow> xreal \<Rightarrow> bool" where
  "xless (Fin x) (Fin y) = (x < y)"
| "xless (Fin x) Infinity = True"
| "xless Infinity y = False"

fun xadd :: "xreal \<Rightarrow> real \<Rightarrow> xreal" where
  "xadd (Fin x) w = Fin (x + w)"
| "xadd Infinity w = Infinity"

definition distOf :: "(string \<rightharpoonup> real) \<Rightarrow> string \<Rightarrow> xreal" where
  "distOf dst v = (case dst v of None \<Rightarrow> Infinity | Some d \<Rightarrow> Fin d)"

text \<open>The ``extract min'' scan over \<open>pq\<close>: \<open>u\<close> starts as \<open>null\<close>, \<open>best\<close> as
  \<open>Infinity\<close>, and the first strictly smaller distance wins.\<close>

fun pickMin :: "(string \<rightharpoonup> real) \<Rightarrow> string list \<Rightarrow> string option \<times> xreal \<Rightarrow> string option \<times> xreal" where
  "pickMin dst [] st = st"
| "pickMin dst (v # vs) (u, best) =
     (if xless (distOf dst v) best then pickMin dst vs (Some v, distOf dst v)
      else pickMin dst vs (u, best))"

text \<open>The relaxation loop over the edges of \<open>u\<close>, threading \<open>dist\<close> (here \<open>dst\<close>), \<open>prev\<close> and \<open>pq\<close>.
  \<open>alt < ...\<close> is false when \<open>alt\<close> is \<open>Infinity\<close>.\<close>

type_synonym dstate = "(string \<rightharpoonup> real) \<times> (string \<rightharpoonup> string) \<times> string list"

fun relax :: "string \<Rightarrow> (string \<times> real) list \<Rightarrow> dstate \<Rightarrow> dstate" where
  "relax u [] st = st"
| "relax u ((to, w) # es) (dst, prev, pq) =
     (case xadd (distOf dst u) w of
        Infinity \<Rightarrow> relax u es (dst, prev, pq)
      | Fin alt \<Rightarrow>
          if xless (Fin alt) (distOf dst to)
          then relax u es (dst(to \<mapsto> alt), prev(to \<mapsto> u), setAdd to pq)
          else relax u es (dst, prev, pq))"

text \<open>The \<open>while (pq.size)\<close> loop. With a negative weight the source loop need not end, and
  a scan that finds no node (\<open>u = null\<close>) repeats for ever: not returning is \<open>None\<close>.\<close>

partial_function (option) dijkstraLoop :: "wgraph \<Rightarrow> string \<Rightarrow> dstate \<Rightarrow> dstate option" where
  "dijkstraLoop g goal st =
     (case st of (dst, prev, pq) \<Rightarrow>
        if pq = [] then Some (dst, prev, pq)
        else (case fst (pickMin dst pq (None, Infinity)) of
                None \<Rightarrow> dijkstraLoop g goal (dst, prev, pq)
              | Some u \<Rightarrow>
                  if u = goal then Some (dst, prev, removeAll u pq)
                  else dijkstraLoop g goal (relax u (getOrEmpty g u) (dst, prev, removeAll u pq))))"

text \<open>The path is rebuilt from \<open>goal\<close> along \<open>prev\<close> until \<open>start\<close> or a node without
  predecessor; the caller reverses it.\<close>

partial_function (option) rebuildPath ::
  "(string \<rightharpoonup> string) \<Rightarrow> string \<Rightarrow> string \<Rightarrow> string list \<Rightarrow> string list option" where
  "rebuildPath prev start v path =
     (if v = start then Some (path @ [v])
      else (case prev v of
              None \<Rightarrow> Some (path @ [v])
            | Some p \<Rightarrow> rebuildPath prev start p (path @ [v])))"

record dijkstraResult =
  R :: xreal
  path :: "string list option"

definition dijkstraWeighted :: "wgraph \<Rightarrow> string \<Rightarrow> string \<Rightarrow> dijkstraResult option" where
  "dijkstraWeighted g start goal =
     (if \<not> truthy start \<or> \<not> truthy goal \<or> \<not> hasKey g start \<or> \<not> hasKey g goal
      then Some \<lparr>R = Infinity, path = None\<rparr>
      else (case dijkstraLoop g goal ([start \<mapsto> 0], Map.empty, [start]) of
              None \<Rightarrow> None
            | Some (dst, prev, pq) \<Rightarrow>
                (case dst goal of
                   None \<Rightarrow> Some \<lparr>R = Infinity, path = None\<rparr>
                 | Some d \<Rightarrow>
                     (case rebuildPath prev start goal [] of
                        None \<Rightarrow> None
                      | Some p \<Rightarrow> Some \<lparr>R = Fin d, path = Some (rev p)\<rparr>))))"

text \<open>\<open>measureResistance\<close>: the readings for the families L, N and E, in this order.\<close>

definition measureResistance ::
  "'st component list \<Rightarrow> wire list \<Rightarrow> string \<Rightarrow> string \<Rightarrow> (xreal \<times> xreal \<times> xreal) option" where
  "measureResistance comps wires a b =
     (case (dijkstraWeighted (buildWeightedSubgraph comps wires LineTermTypes ''L'') a b,
            dijkstraWeighted (buildWeightedSubgraph comps wires NeutralTermTypes ''N'') a b,
            dijkstraWeighted (buildWeightedSubgraph comps wires EarthTermTypes ''E'') a b) of
        (Some rl, Some rn, Some re) \<Rightarrow> Some (R rl, R rn, R re)
      | _ \<Rightarrow> None)"

subsection \<open>Ring detection\<close>

text \<open>\<open>hasCycleThrough\<close>. The inner function \<open>dfs(v, parent)\<close> adds \<open>v\<close> to \<open>visited\<close> and
  loops over \<open>g.get(v) || []\<close>; \<open>dfsLoop\<close> is that loop on the remaining neighbours \<open>us\<close>,
  threading \<open>visited\<close> and the flag \<open>cycle\<close>. The first argument bounds the depth of the
  recursion: \<open>None\<close> is returned when it is used up.\<close>

fun dfsLoop ::
  "nat \<Rightarrow> wgraph \<Rightarrow> string \<Rightarrow> string option \<Rightarrow> string list \<Rightarrow> string list \<times> bool
   \<Rightarrow> (string list \<times> bool) option" where
  "dfsLoop n g v parent [] st = Some st"
| "dfsLoop n g v parent (u # us) (visited, cycle) =
     (if Some u = parent then dfsLoop n g v parent us (visited, cycle)
      else if u \<notin> set visited then
        (case n of
           0 \<Rightarrow> None
         | Suc m \<Rightarrow>
             (case dfsLoop m g u (Some v) (map fst (getOrEmpty g u)) (setAdd u visited, cycle) of
                None \<Rightarrow> None
              | Some st' \<Rightarrow> dfsLoop n g v parent us st'))
      else dfsLoop n g v parent us (visited, True))"

definition hasCycleThrough :: "nat \<Rightarrow> wgraph \<Rightarrow> string option \<Rightarrow> bool option" where
  "hasCycleThrough n g startId =
     (case startId of
        None \<Rightarrow> Some False
      | Some s \<Rightarrow>
          if truthy s \<and> hasKey g s
          then map_option snd (dfsLoop n g s None (map fst (getOrEmpty g s)) (setAdd s [], False))
          else Some False)"

subsection \<open>Undirected graphs\<close>

text \<open>The property of an adjacency structure that every edge is recorded at both of its
  ends (for a weighted graph, with the same weight).\<close>

definition symmetricG :: "graph \<Rightarrow> bool" where
  "symmetricG g = (\<forall>a b. (b \<in> set (getOrEmpty g a)) = (a \<in> set (getOrEmpty g b)))"

definition symmetricW :: "wgraph \<Rightarrow> bool" where
  "symmetricW g = (\<forall>a b w. ((b, w) \<in> set (getOrEmpty g a)) = ((a, w) \<in> set (getOrEmpty g b)))"

text \<open>The directed edge relation read from an adjacency structure.\<close>

definition edgesOf :: "graph \<Rightarrow> (string \<times> string) set" where
  "edgesOf g = {(v, u). u \<in> set (getOrEmpty g v)}"




subsection \<open>Connections and potentials read from the components and the wires\<close>

text \<open>The notions in which the voltage readings are stated below. They are written from
  the components and the wires themselves, not from the graph builder and the search,
  with which they are then compared. The first two follow the wording of the
  specification; the last two add what the voltage model does at a supply terminal.
  \<^item> \<open>spec_joined\<close>: two terminals are joined in a conductor family when a wire that is
    not marked \<open>open\<close> runs between them and both are of the family, or when an internal
    link of a component names them and both are of the family (the edge rules of the
    graph builder's contract).
  \<^item> \<open>spec_reachable\<close>: the reachable set of a terminal, that is the terminal itself and
    everything a chain of joined terminals leads to.
  \<^item> \<open>fed_by_supply\<close>: what a supply terminal feeds. It is the reachable set of the
    terminal when at least one terminal is joined to it, and it is empty when nothing is
    joined to it or the supply has no such terminal.
  \<^item> \<open>fed_potential\<close>: 230 for a terminal fed by the supply's Line terminal, 0 for one
    fed by its Neutral or its Earth terminal, and no potential otherwise.\<close>

definition spec_joined ::
  "'st component list \<Rightarrow> wire list \<Rightarrow> string set \<Rightarrow> string \<Rightarrow> string \<Rightarrow> bool" where
  "spec_joined comps wires allowed v u =
     ((\<exists>w \<in> set wires. fault w \<noteq> Some ''open'' \<and>
          hasType allowed (termTypeById comps (wa w)) \<and>
          hasType allowed (termTypeById comps (wb w)) \<and>
          (v = wa w \<and> u = wb w \<or> v = wb w \<and> u = wa w)) \<or>
      (\<exists>c \<in> set comps. \<exists>l \<in> set (linksOf c).
          case (findByName (terminals c) (fst l), findByName (terminals c) (snd l)) of
            (Some t1, Some t2) \<Rightarrow>
               ttype t1 \<in> allowed \<and> ttype t2 \<in> allowed \<and>
               (v = tid t1 \<and> u = tid t2 \<or> v = tid t2 \<and> u = tid t1)
          | _ \<Rightarrow> False))"




subsection \<open>Weighted paths and the invariant of the shortest-path loop\<close>

text \<open>The edge relation of a weighted graph, the property that no weight is negative, and
  the facts that hold of \<open>dist\<close>, \<open>prev\<close> and \<open>pq\<close> each time the \<open>while\<close> loop of
  \<open>dijkstraWeighted\<close> tests its condition: the nodes of \<open>pq\<close> have a distance; a node with
  a distance that is not in \<open>pq\<close> is settled, no further from the start than any node of
  \<open>pq\<close>; distances are not negative; every node with a distance is reachable from the
  start; predecessors are settled and the predecessor chains are well-founded.\<close>

definition wedges :: "wgraph \<Rightarrow> (string \<times> string) set" where
  "wedges g = {(u, v). v \<in> fst ` set (getOrEmpty g u)}"

definition nonNegative :: "wgraph \<Rightarrow> bool" where
  "nonNegative g = (\<forall>u. \<forall>e \<in> set (getOrEmpty g u). 0 \<le> snd e)"

definition pickOk :: "(string \<rightharpoonup> real) \<Rightarrow> string set \<Rightarrow> string option \<times> xreal \<Rightarrow> bool" where
  "pickOk dst A st =
     (case fst st of
        None \<Rightarrow> snd st = Infinity \<and> A = {}
      | Some x \<Rightarrow> \<exists>d. snd st = Fin d \<and> dst x = Some d \<and> x \<in> A \<and>
                    (\<forall>a \<in> A. \<forall>da. dst a = Some da \<longrightarrow> d \<le> da))"

definition dinv :: "wgraph \<Rightarrow> string \<Rightarrow> dstate \<Rightarrow> bool" where
  "dinv g start st =
     (case st of (dst, prev, pq) \<Rightarrow>
        set pq \<subseteq> dom dst \<and>
        (\<forall>s q ds dq. dst s = Some ds \<and> s \<notin> set pq \<and> q \<in> set pq \<and> dst q = Some dq \<longrightarrow> ds \<le> dq) \<and>
        (\<forall>v d. dst v = Some d \<longrightarrow> 0 \<le> d) \<and>
        start \<in> dom dst \<and>
        dom dst \<subseteq> (wedges g)\<^sup>* `` {start} \<and>
        (\<forall>v p. prev v = Some p \<longrightarrow> p \<in> dom dst \<and> p \<notin> set pq) \<and>
        wf {(p, v). prev v = Some p \<and> v \<noteq> start})"

definition closed :: "wgraph \<Rightarrow> dstate \<Rightarrow> bool" where
  "closed g st =
     (case st of (dst, prev, pq) \<Rightarrow>
        \<forall>s \<in> dom dst - set pq. \<forall>e \<in> set (getOrEmpty g s). fst e \<in> dom dst)"

subsection \<open>Quantities used to describe ring detection\<close>

text \<open>The neighbour identifiers read by \<open>hasCycleThrough\<close> (the \<open>to\<close> fields, with
  repetition); the number of adjacency entries of a node; graphs in which \<open>b\<close> is listed
  at \<open>a\<close> as often as \<open>a\<close> at \<open>b\<close>; graphs whose neighbours are all keys; graphs with the
  same keys and, at every key, the same neighbours up to order; a wire drawn in the
  opposite direction; the decision of \<open>buildWeightedSubgraph\<close> whether a wire contributes
  an edge, with its resistance. The two counters and \<open>dfsPre\<close>/\<open>dfsPost\<close> state what one
  run of the loop of \<open>dfs\<close> assumes and establishes.\<close>

abbreviation nbrs :: "wgraph \<Rightarrow> string \<Rightarrow> string list" where
  "nbrs g v \<equiv> map fst (getOrEmpty g v)"

definition balanced :: "wgraph \<Rightarrow> bool" where
  "balanced g = (\<forall>a b. count_list (nbrs g a) b = count_list (nbrs g b) a)"

definition deg :: "wgraph \<Rightarrow> string \<Rightarrow> nat" where
  "deg g v = length (getOrEmpty g v)"

definition nonParent :: "string option \<Rightarrow> string list \<Rightarrow> nat" where
  "nonParent p us = length (filter (\<lambda>u. Some u \<noteq> p) us)"

definition nonParentSeen :: "string option \<Rightarrow> string set \<Rightarrow> string list \<Rightarrow> nat" where
  "nonParentSeen p V us = length (filter (\<lambda>u. Some u \<noteq> p \<and> u \<in> V) us)"

definition dfsPre ::
  "wgraph \<Rightarrow> string \<Rightarrow> string option \<Rightarrow> string list \<Rightarrow> string list \<Rightarrow> string list \<Rightarrow> nat \<Rightarrow> bool" where
  "dfsPre g v p pre us V n =
     (nbrs g v = pre @ us \<and> set pre \<subseteq> set V \<and> v \<in> set V \<and> (\<forall>q. p = Some q \<longrightarrow> q \<in> set V) \<and>
      distinct V \<and> card (Range (wedges g) - set V) \<le> n)"

definition dfsPost ::
  "wgraph \<Rightarrow> string \<Rightarrow> string option \<Rightarrow> string list \<Rightarrow> string list \<Rightarrow> bool \<Rightarrow> string list \<Rightarrow> bool \<Rightarrow> bool" where
  "dfsPost g v p us V c N' c' =
     (distinct (V @ N') \<and> set us \<subseteq> set (V @ N') \<and>
      (\<forall>x \<in> set N'. set (nbrs g x) \<subseteq> set (V @ N') \<and> (v, x) \<in> (wedges g)\<^sup>*) \<and>
      2 * length N' + nonParentSeen p (set V) us \<le> nonParent p us + sum_list (map (deg g) N') \<and>
      c' = (c \<or> 2 * length N' < nonParent p us + sum_list (map (deg g) N')))"

definition sameEdges :: "wgraph \<Rightarrow> wgraph \<Rightarrow> bool" where
  "sameEdges g g' =
     ((\<forall>x. mset (nbrs g x) = mset (nbrs g' x)) \<and> (\<forall>x. hasKey g x = hasKey g' x))"

definition keyed :: "wgraph \<Rightarrow> bool" where
  "keyed g = (\<forall>x y. y \<in> set (nbrs g x) \<longrightarrow> hasKey g y)"

definition flipWire :: "wire \<Rightarrow> wire" where
  "flipWire w = w\<lparr>wa := wb w, wb := wa w\<rparr>"

definition wireWeight :: "'st component list \<Rightarrow> string set \<Rightarrow> string \<Rightarrow> wire \<Rightarrow> real option" where
  "wireWeight comps al key w =
     (if fault w = Some ''open'' \<or> \<not> hasType al (termTypeById comps (wa w)) \<or>
         \<not> hasType al (termTypeById comps (wb w)) \<or> \<not> isMatch w key then None
      else map_option
             (\<lambda>m. if fault w = Some ''hr'' then m * rPerMOf w key + 2 * CONTACT_R + 1
                  else m * rPerMOf w key + 2 * CONTACT_R)
             (case lengthM w of
                Some l \<Rightarrow> if l > 0 then Some l
                          else map_option (\<lambda>d. d / PX_PER_M)
                                 (pxDistanceBetweenTerminals comps (wa w) (wb w))
              | None \<Rightarrow> map_option (\<lambda>d. d / PX_PER_M)
                          (pxDistanceBetweenTerminals comps (wa w) (wb w))))"

subsection \<open>An example circuit\<close>

text \<open>A supply at the origin and a lamp 300 px to its right, as the factories \<open>makeSupply\<close>
  and \<open>makeLamp\<close> lay out their terminals, and a way to write wires between them.\<close>

definition exSupply :: "unit component" where
  "exSupply = \<lparr>cid = ''S'', ctype = ''SUPPLY'', cx = 0, cy = 0,
     terminals = [\<lparr>tid = ''sL'', tname = ''L'', ttype = ''L'', dx = 10, dy = 10\<rparr>,
                  \<lparr>tid = ''sN'', tname = ''N'', ttype = ''N'', dx = 10, dy = 40\<rparr>,
                  \<lparr>tid = ''sE'', tname = ''E'', ttype = ''E'', dx = 10, dy = 70\<rparr>],
     state = None, internalLinks = LinkArray []\<rparr>"

definition exLamp :: "unit component" where
  "exLamp = \<lparr>cid = ''P'', ctype = ''LAMP'', cx = 300, cy = 0,
     terminals = [\<lparr>tid = ''lL'', tname = ''L'', ttype = ''L'', dx = 10, dy = 10\<rparr>,
                  \<lparr>tid = ''lN'', tname = ''N'', ttype = ''N'', dx = 10, dy = 40\<rparr>,
                  \<lparr>tid = ''lE'', tname = ''E'', ttype = ''E'', dx = 10, dy = 70\<rparr>],
     state = None, internalLinks = LinkArray []\<rparr>"

definition exWire :: "string \<Rightarrow> string \<Rightarrow> string \<Rightarrow> string \<Rightarrow> wire" where
  "exWire i a b k = \<lparr>wid = i, wa = a, wb = b, kind = k, fault = None, sizeMm2 = Some (15 / 10),
     ampacityA = Some 16, cableType = Some ''T&E'', wlabel = None, lengthM = Some 5,
     switchedLive = False\<rparr>"

definition exIds :: freshIds where
  "exIds = \<lparr>junctionId = ''j'', terminal1Id = ''j1'', terminal2Id = ''j2'',
            wire1Id = ''w1a'', wire2Id = ''w1b''\<rparr>"

definition exConnE :: "unit component" where
  "exConnE = \<lparr>cid = ''K'', ctype = ''CONNECTOR_E3'', cx = 300, cy = 200,
     terminals = [\<lparr>tid = ''k1'', tname = ''E1'', ttype = ''E'', dx = 10, dy = 15\<rparr>,
                  \<lparr>tid = ''k2'', tname = ''E2'', ttype = ''E'', dx = 10, dy = 35\<rparr>,
                  \<lparr>tid = ''k3'', tname = ''E3'', ttype = ''E'', dx = 10, dy = 55\<rparr>],
     state = None, internalLinks = LinkArray [(''E1'', ''E2''), (''E1'', ''E3'')]\<rparr>"

definition exBond :: wire where
  "exBond = \<lparr>wid = ''wb'', wa = ''lE'', wb = ''k1'', kind = ''E'', fault = None,
     sizeMm2 = Some 6, ampacityA = Some 40, cableType = Some ''Bonding'', wlabel = None,
     lengthM = Some 5, switchedLive = False\<rparr>"

definition exWires :: "wire list" where
  "exWires = [exWire ''w1'' ''sL'' ''lL'' ''L'', exWire ''w2'' ''sN'' ''lN'' ''N'']"

definition sL :: terminal where "sL = \<lparr>tid = ''sL'', tname = ''L'', ttype = ''L'', dx = 10, dy = 10\<rparr>"
definition lL :: terminal where "lL = \<lparr>tid = ''lL'', tname = ''L'', ttype = ''L'', dx = 10, dy = 10\<rparr>"
definition lE :: terminal where "lE = \<lparr>tid = ''lE'', tname = ''E'', ttype = ''E'', dx = 10, dy = 70\<rparr>"
definition k1 :: terminal where "k1 = \<lparr>tid = ''k1'', tname = ''E1'', ttype = ''E'', dx = 10, dy = 15\<rparr>"


text \<open>A supply whose Line terminal has the empty string as identifier.\<close>

definition exSupplyNoId :: "unit component" where
  "exSupplyNoId = \<lparr>cid = ''S'', ctype = ''SUPPLY'', cx = 0, cy = 0,
     terminals = [\<lparr>tid = [], tname = ''L'', ttype = ''L'', dx = 10, dy = 10\<rparr>,
                  \<lparr>tid = ''sN'', tname = ''N'', ttype = ''N'', dx = 10, dy = 40\<rparr>,
                  \<lparr>tid = ''sE'', tname = ''E'', ttype = ''E'', dx = 10, dy = 70\<rparr>],
     state = None, internalLinks = LinkArray []\<rparr>"

text \<open>Two sockets and a Line ring Supply, A, B, Supply.\<close>

definition exSocketA :: "unit component" where
  "exSocketA = \<lparr>cid = ''A'', ctype = ''SOCKET_1G'', cx = 300, cy = 0,
     terminals = [\<lparr>tid = ''aL'', tname = ''L'', ttype = ''L'', dx = 10, dy = 10\<rparr>,
                  \<lparr>tid = ''aN'', tname = ''N'', ttype = ''N'', dx = 10, dy = 40\<rparr>,
                  \<lparr>tid = ''aE'', tname = ''E'', ttype = ''E'', dx = 10, dy = 70\<rparr>],
     state = None, internalLinks = LinkArray []\<rparr>"

definition exSocketB :: "unit component" where
  "exSocketB = \<lparr>cid = ''B'', ctype = ''SOCKET_1G'', cx = 300, cy = 200,
     terminals = [\<lparr>tid = ''bL'', tname = ''L'', ttype = ''L'', dx = 10, dy = 10\<rparr>,
                  \<lparr>tid = ''bN'', tname = ''N'', ttype = ''N'', dx = 10, dy = 40\<rparr>,
                  \<lparr>tid = ''bE'', tname = ''E'', ttype = ''E'', dx = 10, dy = 70\<rparr>],
     state = None, internalLinks = LinkArray []\<rparr>"

definition exRing :: "wire list" where
  "exRing = [exWire ''r1'' ''sL'' ''aL'' ''L'', exWire ''r2'' ''aL'' ''bL'' ''L'',
             exWire ''r3'' ''bL'' ''sL'' ''L'']"

lemmas ex_defs = exSupply_def exLamp_def exWire_def exIds_def

section \<open>Properties\<close>

subsection \<open>Maps and the edge helpers\<close>

lemma getOrEmpty_update:
  "getOrEmpty (AList.update k v m) x = (if x = k then v else getOrEmpty m x)"
  by (simp add: getOrEmpty_def update_conv')

lemma hasKey_map_of: "hasKey m k = (map_of m k \<noteq> None)"
  by (simp add: hasKey_def map_of_eq_None_iff)

lemma hasKey_update: "hasKey (AList.update k v m) x = (x = k \<or> hasKey m x)"
  by (simp add: hasKey_map_of update_conv')

lemma getOrEmpty_not_hasKey: "\<not> hasKey m k \<Longrightarrow> getOrEmpty m k = []"
  by (simp add: hasKey_map_of getOrEmpty_def)

lemma getOrEmpty_ensure:
  "getOrEmpty (if \<not> hasKey m k then AList.update k [] m else m) x = getOrEmpty m x"
  by (simp add: getOrEmpty_update getOrEmpty_not_hasKey)

lemma addEdge_nbrs:
  "set (getOrEmpty (addEdge g a b) x) =
     set (getOrEmpty g x) \<union> (if x = a then {b} else {}) \<union> (if x = b then {a} else {})"
proof -
  have "getOrEmpty (addEdge g a b) x =
      (if x = b then setAdd a (if b = a then setAdd b (getOrEmpty g a) else getOrEmpty g b)
       else if x = a then setAdd b (getOrEmpty g a) else getOrEmpty g x)"
    unfolding addEdge_def Let_def getOrEmpty_update getOrEmpty_ensure by simp
  then show ?thesis by (auto simp: setAdd_def)
qed

lemma addW_nbrs:
  "set (getOrEmpty (addW g a b w) x) =
     set (getOrEmpty g x) \<union> (if x = a then {(b, w)} else {}) \<union> (if x = b then {(a, w)} else {})"
proof -
  have "getOrEmpty (addW g a b w) x =
      (if x = b then (if b = a then getOrEmpty g a @ [(b, w)] else getOrEmpty g b) @ [(a, w)]
       else if x = a then getOrEmpty g a @ [(b, w)] else getOrEmpty g x)"
    unfolding addW_def Let_def getOrEmpty_update getOrEmpty_ensure by simp
  then show ?thesis by auto
qed

lemma symmetricG_addEdge: "symmetricG g \<Longrightarrow> symmetricG (addEdge g a b)"
  unfolding symmetricG_def addEdge_nbrs by auto

lemma symmetricW_addW: "symmetricW g \<Longrightarrow> symmetricW (addW g a b w)"
  unfolding symmetricW_def addW_nbrs by auto

lemma symmetricG_empty: "symmetricG []"
  by (simp add: symmetricG_def getOrEmpty_def)

lemma symmetricW_empty: "symmetricW []"
  by (simp add: symmetricW_def getOrEmpty_def)

lemma foldl_preserves:
  assumes "P s" and "\<And>s x. P s \<Longrightarrow> P (f s x)"
  shows "P (foldl f s xs)"
  using assms(1) by (induction xs arbitrary: s) (auto intro: assms(2))

lemma symmetricG_addLink: "symmetricG g \<Longrightarrow> symmetricG (addLink ts g l)"
  by (auto simp: addLink_def symmetricG_addEdge split: option.splits)

lemma symmetricG_addTypedLink: "symmetricG g \<Longrightarrow> symmetricG (addTypedLink al ts g l)"
  by (auto simp: addTypedLink_def symmetricG_addEdge split: option.splits)

lemma symmetricW_addWeightedLink: "symmetricW g \<Longrightarrow> symmetricW (addWeightedLink al ts g l)"
  by (auto simp: addWeightedLink_def symmetricW_addW split: option.splits)

lemma symmetricW_addWire: "symmetricW g \<Longrightarrow> symmetricW (addWire comps al key g w)"
  by (auto simp: addWire_def Let_def symmetricW_addW split: option.splits)

lemma symmetricG_buildAdjacency: "symmetricG (buildAdjacency comps wires)"
proof -
  have 1: "symmetricG (foldl (\<lambda>g w. addEdge g (wa w) (wb w)) [] wires)"
    by (rule foldl_preserves) (simp_all add: symmetricG_empty symmetricG_addEdge)
  have 2: "symmetricG (foldl (addLink ts) g ls)" if "symmetricG g" for g ts ls
    using that by (rule foldl_preserves) (simp add: symmetricG_addLink)
  show ?thesis
    unfolding buildAdjacency_def Let_def
    by (rule foldl_preserves) (simp_all add: 1 2)
qed

lemma symmetricG_buildTypedSubgraph: "symmetricG (buildTypedSubgraph comps wires al)"
proof -
  have 1: "symmetricG (foldl (\<lambda>g w.
                 if hasType al (termTypeById comps (wa w)) \<and> hasType al (termTypeById comps (wb w))
                 then addEdge g (wa w) (wb w) else g) [] wires)"
    by (rule foldl_preserves) (simp_all add: symmetricG_empty symmetricG_addEdge)
  have 2: "symmetricG (foldl (addTypedLink al ts) g ls)" if "symmetricG g" for g ts ls
    using that by (rule foldl_preserves) (simp add: symmetricG_addTypedLink)
  show ?thesis
    unfolding buildTypedSubgraph_def Let_def
    by (rule foldl_preserves) (simp_all add: 1 2)
qed

lemma symmetricW_buildWeightedSubgraph: "symmetricW (buildWeightedSubgraph comps wires al key)"
proof -
  have 1: "symmetricW (foldl (addWire comps al key) [] wires)"
    by (rule foldl_preserves) (simp_all add: symmetricW_empty symmetricW_addWire)
  have 2: "symmetricW (foldl (addWeightedLink al ts) g ls)" if "symmetricW g" for g ts ls
    using that by (rule foldl_preserves) (simp add: symmetricW_addWeightedLink)
  show ?thesis
    unfolding buildWeightedSubgraph_def Let_def
    by (rule foldl_preserves) (simp_all add: 1 2)
qed

subsection \<open>The graphs are undirected\<close>

text \<open>
  Claim C9. Every adjacency structure produced by \<open>buildAdjacency\<close>, \<open>buildTypedSubgraph\<close>
  and \<open>buildWeightedSubgraph\<close> is symmetric: for all terminal identifiers \<open>a\<close> and \<open>b\<close>,
  \<open>b\<close> is a neighbour of \<open>a\<close> if and only if \<open>a\<close> is a neighbour of \<open>b\<close>.
\<close>

theorem adjacency_symmetric:
  "((b \<in> set (getOrEmpty (buildAdjacency comps wires) a)) =
      (a \<in> set (getOrEmpty (buildAdjacency comps wires) b))) \<and>
   ((b \<in> set (getOrEmpty (buildTypedSubgraph comps wires allowed) a)) =
      (a \<in> set (getOrEmpty (buildTypedSubgraph comps wires allowed) b))) \<and>
   ((b \<in> fst ` set (getOrEmpty (buildWeightedSubgraph comps wires allowed key) a)) =
      (a \<in> fst ` set (getOrEmpty (buildWeightedSubgraph comps wires allowed key) b)))"
proof -
  have w: "symmetricW (buildWeightedSubgraph comps wires allowed key)"
    by (rule symmetricW_buildWeightedSubgraph)
  have "(b \<in> fst ` set (getOrEmpty (buildWeightedSubgraph comps wires allowed key) a)) =
      (a \<in> fst ` set (getOrEmpty (buildWeightedSubgraph comps wires allowed key) b))"
    using w unfolding symmetricW_def by force
  then show ?thesis
    using symmetricG_buildAdjacency [of comps wires]
      symmetricG_buildTypedSubgraph [of comps wires allowed]
    unfolding symmetricG_def by blast
qed


subsection \<open>Open faults in the unweighted graph\<close>

lemmas build_simps = buildTypedSubgraph_def termTypeById_def hasType_def LineTermTypes_def
  NeutralTermTypes_def EarthTermTypes_def addEdge_def hasKey_def getOrEmpty_def setAdd_def
  linksOf_def addTypedLink_def findByName_def

text \<open>\<open>buildTypedSubgraph\<close> and \<open>buildAdjacency\<close> never read the fault marker of a
  wire.\<close>

lemma buildTypedSubgraph_ignores_fault:
  "buildTypedSubgraph comps (map (\<lambda>w. w\<lparr>fault := f w\<rparr>) wires) allowed =
   buildTypedSubgraph comps wires allowed"
proof -
  have "foldl (\<lambda>g w. if hasType allowed (termTypeById comps (wa w)) \<and>
                         hasType allowed (termTypeById comps (wb w))
                      then addEdge g (wa w) (wb w) else g) g0 (map (\<lambda>w. w\<lparr>fault := f w\<rparr>) wires) =
        foldl (\<lambda>g w. if hasType allowed (termTypeById comps (wa w)) \<and>
                         hasType allowed (termTypeById comps (wb w))
                      then addEdge g (wa w) (wb w) else g) g0 wires" for g0
    by (induction wires arbitrary: g0) simp_all
  then show ?thesis by (simp only: buildTypedSubgraph_def Let_def)
qed

lemma buildAdjacency_ignores_fault:
  "buildAdjacency comps (map (\<lambda>w. w\<lparr>fault := f w\<rparr>) wires) = buildAdjacency comps wires"
proof -
  have "foldl (\<lambda>g w. addEdge g (wa w) (wb w)) g0 (map (\<lambda>w. w\<lparr>fault := f w\<rparr>) wires) =
        foldl (\<lambda>g w. addEdge g (wa w) (wb w)) g0 wires" for g0
    by (induction wires arbitrary: g0) simp_all
  then show ?thesis by (simp only: buildAdjacency_def Let_def)
qed

text \<open>
  Claim C1 says that a wire whose fault marker is \<open>open\<close> contributes no edge to the graph
  built by \<open>buildTypedSubgraph\<close>. The source of \<open>buildTypedSubgraph\<close> never reads
  \<open>w.fault\<close>: for the supply and the lamp joined by one Line wire marked \<open>open\<close>, the
  Line graph has the edge between the two Line terminals, while \<open>buildWeightedSubgraph\<close>,
  which tests \<open>w.fault === 'open'\<close>, leaves the same wire out.
\<close>

theorem buildTypedSubgraph_keeps_open_wire:
  "buildTypedSubgraph [exSupply, exLamp]
     [(exWire ''w1'' ''sL'' ''lL'' ''L'')\<lparr>fault := Some ''open''\<rparr>] LineTermTypes
     = [(''sL'', [''lL'']), (''lL'', [''sL''])] \<and>
   buildWeightedSubgraph [exSupply, exLamp]
     [(exWire ''w1'' ''sL'' ''lL'' ''L'')\<lparr>fault := Some ''open''\<rparr>] LineTermTypes ''L'' = []"
  by (simp add: ex_defs build_simps buildWeightedSubgraph_def addWire_def)

subsection \<open>Wire cut\<close>

lemma hypot_0 [simp]: "hypot x 0 = \<bar>x\<bar>"
  by (simp add: hypot_def)

lemmas cut_simps = cutWireAt_def componentTerminalAbsPos_def projectPointOnSegment_def
  truthy_def mapKindToTerm_def

text \<open>What a successful cut copies from the wire, and when a cut is refused.\<close>

lemma cutWireAt_inherits:
  assumes "cutWireAt comps ids w p tol = Some r"
  shows "\<exists>w1 w2. newWires r = [w1, w2] \<and> removedWireId r = wid w \<and>
     wa w1 = wa w \<and> wb w1 = terminal1Id ids \<and> wa w2 = terminal2Id ids \<and> wb w2 = wb w \<and>
     kind w1 = kind w \<and> kind w2 = kind w \<and> sizeMm2 w1 = sizeMm2 w \<and> sizeMm2 w2 = sizeMm2 w \<and>
     cableType w1 = cableType w \<and> cableType w2 = cableType w \<and>
     lengthM w1 = lengthM w \<and> lengthM w2 = lengthM w"
  using assms
  by (auto simp: cutWireAt_def Let_def split: option.splits if_splits)

lemma cutWireAt_None_iff:
  "(cutWireAt comps ids w p tol = None) =
     (case (terminalById comps (wa w), terminalById comps (wb w)) of
        (Some a, Some b) \<Rightarrow>
          hypot (px p - (cx (fst a) + dx (snd a))) (py p - (cy (fst a) + dy (snd a)))
            < (case tol of None \<Rightarrow> 8 | Some t \<Rightarrow> t) \<or>
          hypot (px p - (cx (fst b) + dx (snd b))) (py p - (cy (fst b) + dy (snd b)))
            < (case tol of None \<Rightarrow> 8 | Some t \<Rightarrow> t)
      | _ \<Rightarrow> True)"
  by (auto simp: cutWireAt_def Let_def componentTerminalAbsPos_def split: option.splits)

text \<open>
  Claim C3 says that the two replacement wires of a successful cut do not inherit the
  explicit length of the original wire. In the source both are built with the object
  spread \<open>{...wire, id: newId(), b: terminal1Id}\<close>, which copies \<open>lengthM\<close> with every other
  field, although the comment beside it reads ``lengthM intentionally omitted''. Cutting
  the 5 m Line wire of the example in its middle gives two wires of explicit length 5 m.
\<close>

theorem cutWireAt_copies_lengthM:
  "map_option (\<lambda>r. map lengthM (newWires r))
     (cutWireAt [exSupply, exLamp] exIds (exWire ''w1'' ''sL'' ''lL'' ''L'')
        \<lparr>px = 160, py = 10\<rparr> None)
   = Some [Some 5, Some 5]"
  by (simp add: ex_defs cut_simps Let_def)

text \<open>
  Claim C4 says that a cut whose projected point lies within the tolerance of an endpoint
  returns \<open>null\<close>. The source measures the distance of the requested point, before it is
  projected, to the two endpoints. The wire of the example runs from (10, 10) to
  (310, 10); the point (0, 10) lies 10 px before its start, further than the default
  tolerance 8, and projects onto the start itself: the cut succeeds and puts the junction
  on the terminal.
\<close>

theorem cutWireAt_projection_at_endpoint:
  "projectPointOnSegment \<lparr>px = 0, py = 10\<rparr> \<lparr>px = 10, py = 10\<rparr> \<lparr>px = 310, py = 10\<rparr>
     = \<lparr>px = 10, py = 10, pt = 0\<rparr> \<and>
   map_option (\<lambda>r. (cx (junction r), cy (junction r), map wb (newWires r)))
     (cutWireAt [exSupply, exLamp] exIds (exWire ''w1'' ''sL'' ''lL'' ''L'')
        \<lparr>px = 0, py = 10\<rparr> None)
   = Some (10, 10, [''j1'', ''lL''])"
  by (simp add: ex_defs cut_simps Let_def)

subsection \<open>Voltage readings\<close>



lemma ex_lineGraph:
  "buildTypedSubgraph [exSupply, exLamp] exWires LineTermTypes = [(''sL'', [''lL'']), (''lL'', [''sL''])]"
  by (simp add: ex_defs exWires_def build_simps)

lemma ex_neutralGraph:
  "buildTypedSubgraph [exSupply, exLamp] exWires NeutralTermTypes = [(''sN'', [''lN'']), (''lN'', [''sN''])]"
  by (simp add: ex_defs exWires_def build_simps)

lemma ex_earthGraph:
  "buildTypedSubgraph [exSupply, exLamp] exWires EarthTermTypes = []"
  by (simp add: ex_defs exWires_def build_simps)

lemma ex_lineReach: "lineReach [exSupply, exLamp] exWires exSupply = [''sL'', ''lL'']"
  unfolding lineReach_def ex_lineGraph
  by (simp add: exSupply_def supplyTerminal_def termIdByName_def findByName_def
      reachFromSupply_def bfsSet_def truthy_def hasKey_def getOrEmpty_def)

lemma ex_neutralReach: "neutralReach [exSupply, exLamp] exWires exSupply = [''sN'', ''lN'']"
  unfolding neutralReach_def ex_neutralGraph
  by (simp add: exSupply_def supplyTerminal_def termIdByName_def findByName_def
      reachFromSupply_def bfsSet_def truthy_def hasKey_def getOrEmpty_def)

lemma ex_earthReach: "earthReach [exSupply, exLamp] exWires exSupply = []"
  unfolding earthReach_def ex_earthGraph
  by (simp add: exSupply_def supplyTerminal_def termIdByName_def findByName_def
      reachFromSupply_def bfsSet_def truthy_def hasKey_def getOrEmpty_def)

lemma ex_findSupply: "findSupply [exSupply, exLamp] = Some exSupply"
  by (simp add: findSupply_def exSupply_def)

lemma ex_measureVoltage:
  "measureVoltage [exSupply, exLamp] exWires a b =
     (let va = nodeV [''sL'', ''lL''] [''sN'', ''lN''] [] a;
          vb = nodeV [''sL'', ''lL''] [''sN'', ''lN''] [] b
      in case (va, vb) of
           (Some x, Some y) \<Rightarrow> Some \<lparr>Va = va, Vb = vb, Vab = Some \<bar>x - y\<bar>\<rparr>
         | _ \<Rightarrow> Some \<lparr>Va = va, Vb = vb, Vab = None\<rparr>)"
  unfolding measureVoltage_def ex_findSupply option.case ex_lineReach ex_neutralReach
    ex_earthReach by (simp only: Let_def)

text \<open>
  Claim C10. \<open>measureVoltage\<close> is symmetric in its probes: swapping them swaps \<open>Va\<close> and
  \<open>Vb\<close> and leaves \<open>Vab\<close> unchanged; a \<open>Vab\<close> that is not \<open>null\<close> is the absolute
  difference of the two potentials and so is not negative.
\<close>

theorem measureVoltage_swap:
  "measureVoltage comps wires b a =
     map_option (\<lambda>r. \<lparr>Va = Vb r, Vb = Va r, Vab = Vab r\<rparr>) (measureVoltage comps wires a b) \<and>
   (\<forall>r v. measureVoltage comps wires a b = Some r \<and> Vab r = Some v \<longrightarrow>
      0 \<le> v \<and> (\<exists>x y. Va r = Some x \<and> Vb r = Some y \<and> v = \<bar>x - y\<bar>))"
  by (auto simp: measureVoltage_def Let_def abs_minus_commute split: option.splits)

theorem measureVoltage_swap_witness:
  "measureVoltage [exSupply, exLamp] exWires ''lN'' ''lL''
     = Some \<lparr>Va = Some 0, Vb = Some 230, Vab = Some 230\<rparr> \<and>
   measureVoltage [exSupply, exLamp] exWires ''lL'' ''lN''
     = Some \<lparr>Va = Some 230, Vb = Some 0, Vab = Some 230\<rparr> \<and> (0::real) \<le> 230"
  using measureVoltage_swap [of "[exSupply, exLamp]" exWires "''lN''" "''lL''"]
  by (simp add: ex_measureVoltage nodeV_def SYSTEM_V_def Let_def)


subsection \<open>Undersized wires\<close>

lemmas csa_simps = requiredCSAForTerminal_def LineTermTypes_def NeutralTermTypes_def
  EarthTermTypes_def Let_def

lemma ex_term_sL: "terminalById [exSupply, exLamp] ''sL'' = Some (exSupply, sL)"
  by (simp add: exSupply_def sL_def)
lemma ex_term_lL: "terminalById [exSupply, exLamp] ''lL'' = Some (exLamp, lL)"
  by (simp add: exSupply_def exLamp_def lL_def)
lemma ex_term_lE: "terminalById [exLamp, exConnE] ''lE'' = Some (exLamp, lE)"
  by (simp add: exLamp_def lE_def)
lemma ex_term_k1: "terminalById [exLamp, exConnE] ''k1'' = Some (exConnE, k1)"
  by (simp add: exLamp_def exConnE_def k1_def)

lemma ex_csa_sL: "requiredCSAForTerminal exSupply sL ''UK'' = 25"
  by (simp add: exSupply_def sL_def csa_simps)
lemma ex_csa_lL: "requiredCSAForTerminal exLamp lL ''UK'' = 1"
  by (simp add: exLamp_def lL_def csa_simps)
lemma ex_csa_lE: "requiredCSAForTerminal exLamp lE ''UK'' = 1"
  by (simp add: exLamp_def lE_def csa_simps)
lemma ex_csa_k1: "requiredCSAForTerminal exConnE k1 ''UK'' = 0"
  by (simp add: exConnE_def k1_def csa_simps)

text \<open>
  Claim C8 says that \<open>isUndersized\<close> is false without a declared size and otherwise true
  exactly when the size plus \<open>1e-6\<close> is below the maximum of the requirements of the two
  endpoint terminals. For a UK bonding earth cable the source raises the requirement to
  10: the 6 mm2 bonding cable between the lamp's earth terminal (requirement 1) and an
  earth connector (requirement 0) is undersized, although 6 is not below the maximum 1.
\<close>

theorem isWireUndersized_bonding_counterexample:
  "isWireUndersized [exLamp, exConnE] exBond None \<and>
   sizeMm2 exBond = Some 6 \<and>
   terminalById [exLamp, exConnE] (wa exBond) = Some (exLamp, lE) \<and>
   terminalById [exLamp, exConnE] (wb exBond) = Some (exConnE, k1) \<and>
   requiredCSAForTerminal exLamp lE ''UK'' = 1 \<and>
   requiredCSAForTerminal exConnE k1 ''UK'' = 0 \<and>
   \<not> ((6::real) + 1 / 1000000 < max 1 0)"
  by (simp add: isWireUndersized_def wireRequiredMinCSA_def exBond_def ex_term_lE ex_term_k1
      ex_csa_lE ex_csa_k1 del: terminalById.simps)

text \<open>
  Claim C8 as amended. \<open>isWireUndersized\<close> is false when the wire has no declared size (or
  the size 0) and when an endpoint terminal is missing. For a positive declared size and
  both endpoint terminals present it is true exactly when the size plus \<open>1e-6\<close> is
  strictly below the requirement, which is the maximum of the requirements of the two
  endpoint terminals, raised to at least 10 when the region is UK and the wire is an earth
  conductor of cable type Bonding. An omitted region counts as UK.
\<close>

theorem isWireUndersized_spec:
  "(sizeMm2 w = None \<or> sizeMm2 w = Some 0 \<longrightarrow> \<not> isWireUndersized comps w region) \<and>
   (terminalById comps (wa w) = None \<or> terminalById comps (wb w) = None \<longrightarrow>
      \<not> isWireUndersized comps w region) \<and>
   (\<forall>s ca ta cb tb. sizeMm2 w = Some s \<and> 0 < s \<and>
      terminalById comps (wa w) = Some (ca, ta) \<and> terminalById comps (wb w) = Some (cb, tb) \<longrightarrow>
      isWireUndersized comps w region =
        (let r = (case region of None \<Rightarrow> ''UK'' | Some x \<Rightarrow> x);
             req = max (requiredCSAForTerminal ca ta r) (requiredCSAForTerminal cb tb r)
         in s + 1 / 1000000 <
              (if r = ''UK'' \<and> cableType w = Some ''Bonding'' \<and> kind w = ''E''
               then max req 10 else req)))"
proof -
  define r where "r = (case region of None \<Rightarrow> ''UK'' | Some x \<Rightarrow> x)"
  have nn: "0 \<le> requiredCSAForTerminal c t r" for c :: "'a component" and t
    by (simp add: requiredCSAForTerminal_def Let_def)
  have 1: "sizeMm2 w = None \<or> sizeMm2 w = Some 0 \<longrightarrow> \<not> isWireUndersized comps w region"
    by (auto simp: isWireUndersized_def Let_def)
  have 2: "terminalById comps (wa w) = None \<or> terminalById comps (wb w) = None \<longrightarrow>
      \<not> isWireUndersized comps w region"
    by (auto simp: isWireUndersized_def wireRequiredMinCSA_def Let_def split: option.splits)
  have 3: "isWireUndersized comps w region =
        (let r = (case region of None \<Rightarrow> ''UK'' | Some x \<Rightarrow> x);
             req = max (requiredCSAForTerminal ca ta r) (requiredCSAForTerminal cb tb r)
         in s + 1 / 1000000 <
              (if r = ''UK'' \<and> cableType w = Some ''Bonding'' \<and> kind w = ''E''
               then max req 10 else req))"
    if h: "sizeMm2 w = Some s" "0 < s" "terminalById comps (wa w) = Some (ca, ta)"
      "terminalById comps (wb w) = Some (cb, tb)" for s ca ta cb tb
  proof -
    have m: "max (max (requiredCSAForTerminal ca ta r) (requiredCSAForTerminal cb tb r)) 0 =
        max (requiredCSAForTerminal ca ta r) (requiredCSAForTerminal cb tb r)"
      using nn [of ca ta] nn [of cb tb] by simp
    show ?thesis
      using h m nn [of ca ta] nn [of cb tb]
      unfolding isWireUndersized_def wireRequiredMinCSA_def Let_def r_def [symmetric]
      by (auto simp: max_def split: if_splits)
  qed
  from 1 2 3 show ?thesis by blast
qed


theorem isWireUndersized_spec_witness:
  "sizeMm2 (exWire ''w1'' ''sL'' ''lL'' ''L'') = Some (15 / 10) \<and> (0::real) < 15 / 10 \<and>
   terminalById [exSupply, exLamp] (wa (exWire ''w1'' ''sL'' ''lL'' ''L'')) = Some (exSupply, sL) \<and>
   terminalById [exSupply, exLamp] (wb (exWire ''w1'' ''sL'' ''lL'' ''L'')) = Some (exLamp, lL) \<and>
   requiredCSAForTerminal exSupply sL ''UK'' = 25 \<and>
   requiredCSAForTerminal exLamp lL ''UK'' = 1 \<and>
   isWireUndersized [exSupply, exLamp] (exWire ''w1'' ''sL'' ''lL'' ''L'') None"
proof -
  have a: "sizeMm2 (exWire ''w1'' ''sL'' ''lL'' ''L'') = Some (15 / 10)"
    and b: "terminalById [exSupply, exLamp] (wa (exWire ''w1'' ''sL'' ''lL'' ''L'')) = Some (exSupply, sL)"
    and c: "terminalById [exSupply, exLamp] (wb (exWire ''w1'' ''sL'' ''lL'' ''L'')) = Some (exLamp, lL)"
    and d: "cableType (exWire ''w1'' ''sL'' ''lL'' ''L'') = Some ''T&E''"
    by (simp_all add: exWire_def ex_term_sL ex_term_lL del: terminalById.simps)
  note spec = isWireUndersized_spec [of "exWire ''w1'' ''sL'' ''lL'' ''L''" "[exSupply, exLamp]" None]
  from spec have "sizeMm2 (exWire ''w1'' ''sL'' ''lL'' ''L'') = Some (15 / 10) \<and> (0::real) < 15 / 10 \<and>
      terminalById [exSupply, exLamp] (wa (exWire ''w1'' ''sL'' ''lL'' ''L'')) = Some (exSupply, sL) \<and>
      terminalById [exSupply, exLamp] (wb (exWire ''w1'' ''sL'' ''lL'' ''L'')) = Some (exLamp, lL) \<longrightarrow>
      isWireUndersized [exSupply, exLamp] (exWire ''w1'' ''sL'' ''lL'' ''L'') None =
        (let r = (case None of None \<Rightarrow> ''UK'' | Some x \<Rightarrow> x);
             req = max (requiredCSAForTerminal exSupply sL r) (requiredCSAForTerminal exLamp lL r)
         in 15 / 10 + 1 / 1000000 <
              (if r = ''UK'' \<and> cableType (exWire ''w1'' ''sL'' ''lL'' ''L'') = Some ''Bonding'' \<and>
                  kind (exWire ''w1'' ''sL'' ''lL'' ''L'') = ''E''
               then max req 10 else req))"
    by blast
  with a b c have "isWireUndersized [exSupply, exLamp] (exWire ''w1'' ''sL'' ''lL'' ''L'') None"
    by (simp add: d ex_csa_sL ex_csa_lL del: terminalById.simps)
  with a b c show ?thesis by (simp add: ex_csa_sL ex_csa_lL del: terminalById.simps)
qed


subsection \<open>Breadth-first search computes reachability\<close>

lemma bfsVisit_covers:
  "bfsVisit ok us (q, seen) = (q', seen') \<Longrightarrow>
     set seen \<subseteq> set seen' \<and> (\<forall>u \<in> set us. ok u \<longrightarrow> u \<in> set seen')"
proof (induction us arbitrary: q seen)
  case Nil
  then show ?case by simp
next
  case (Cons u us)
  show ?case
  proof (cases "ok u \<and> u \<notin> set seen")
    case True
    with Cons.prems have "bfsVisit ok us (q @ [u], seen @ [u]) = (q', seen')" by simp
    from Cons.IH [OF this] show ?thesis by auto
  next
    case False
    with Cons.prems have "bfsVisit ok us (q, seen) = (q', seen')" by auto
    from Cons.IH [OF this] False show ?thesis by auto
  qed
qed

lemma bfsVisit_sound:
  "bfsVisit ok us (q, seen) = (q', seen') \<Longrightarrow>
     set q' \<subseteq> set q \<union> set us \<and> set seen' \<subseteq> set seen \<union> set us \<and>
     set q' - set q \<subseteq> set seen'"
proof -
  assume a: "bfsVisit ok us (q, seen) = (q', seen')"
  from bfsVisit_shape [of ok us q seen] obtain new where
    "bfsVisit ok us (q, seen) = (q @ new, seen @ new)" "set new \<subseteq> set us - set seen"
    by blast
  with a show ?thesis by auto
qed

text \<open>The visited set returned by the loop contains the initial one and is closed under
  the edges to nodes that pass the guard.\<close>

lemma bfsLoop_closed:
  assumes "set q \<subseteq> set seen"
    and "\<forall>x \<in> set seen - set q. \<forall>u \<in> set (getOrEmpty g x). ok u \<longrightarrow> u \<in> set seen"
  shows "set seen \<subseteq> set (bfsLoop ok g q seen) \<and>
     (\<forall>x \<in> set (bfsLoop ok g q seen). \<forall>u \<in> set (getOrEmpty g x).
        ok u \<longrightarrow> u \<in> set (bfsLoop ok g q seen))"
  using assms
proof (induction ok g q seen rule: bfsLoop.induct)
  case (1 ok g seen)
  then show ?case by simp
next
  case (2 ok g v q seen)
  obtain q' seen' where v: "bfsVisit ok (getOrEmpty g v) (q, seen) = (q', seen')"
    by (cases "bfsVisit ok (getOrEmpty g v) (q, seen)")
  from bfsVisit_covers [OF v] have c: "set seen \<subseteq> set seen'"
    "\<forall>u \<in> set (getOrEmpty g v). ok u \<longrightarrow> u \<in> set seen'" by auto
  from bfsVisit_sound [OF v] have s: "set q' \<subseteq> set q \<union> set (getOrEmpty g v)"
    "set q' - set q \<subseteq> set seen'" by auto
  have p1: "set q' \<subseteq> set seen'" using s(2) c(1) "2.prems"(1) by auto
  have p2: "\<forall>x \<in> set seen' - set q'. \<forall>u \<in> set (getOrEmpty g x). ok u \<longrightarrow> u \<in> set seen'"
  proof (intro ballI impI)
    fix x u assume x: "x \<in> set seen' - set q'" and u: "u \<in> set (getOrEmpty g x)" "ok u"
    show "u \<in> set seen'"
    proof (cases "x = v")
      case True
      with c(2) u show ?thesis by auto
    next
      case False
      from bfsVisit_shape [of ok "getOrEmpty g v" q seen] v obtain new where
        n: "q' = q @ new" "seen' = seen @ new" by auto
      with x have "x \<in> set seen - set q" by auto
      with False have "x \<in> set seen - set (v # q)" by auto
      with "2.prems"(2) u have "u \<in> set seen" by blast
      with c(1) show ?thesis by auto
    qed
  qed
  from "2.IH" [OF v [symmetric] p1 p2] c(1) v show ?case by auto
qed

lemma bfsLoop_sound:
  assumes "set q \<subseteq> set seen" and "set seen \<subseteq> (edgesOf g)\<^sup>* `` {s}"
  shows "set (bfsLoop ok g q seen) \<subseteq> (edgesOf g)\<^sup>* `` {s}"
  using assms
proof (induction ok g q seen rule: bfsLoop.induct)
  case (1 ok g seen)
  then show ?case by simp
next
  case (2 ok g v q seen)
  obtain q' seen' where v: "bfsVisit ok (getOrEmpty g v) (q, seen) = (q', seen')"
    by (cases "bfsVisit ok (getOrEmpty g v) (q, seen)")
  from bfsVisit_sound [OF v] have s: "set q' \<subseteq> set q \<union> set (getOrEmpty g v)"
    "set seen' \<subseteq> set seen \<union> set (getOrEmpty g v)" "set q' - set q \<subseteq> set seen'" by auto
  from bfsVisit_covers [OF v] have c: "set seen \<subseteq> set seen'" by auto
  have p1: "set q' \<subseteq> set seen'" using s(3) c "2.prems"(1) by auto
  have vr: "(s, v) \<in> (edgesOf g)\<^sup>*" using "2.prems" by auto
  have "set (getOrEmpty g v) \<subseteq> (edgesOf g)\<^sup>* `` {s}"
  proof
    fix u assume "u \<in> set (getOrEmpty g v)"
    then have "(v, u) \<in> edgesOf g" by (simp add: edgesOf_def)
    with vr show "u \<in> (edgesOf g)\<^sup>* `` {s}" by auto
  qed
  with s(2) "2.prems"(2) have p2: "set seen' \<subseteq> (edgesOf g)\<^sup>* `` {s}" by blast
  from "2.IH" [OF v [symmetric] p1 p2] v show ?case by simp
qed

lemma bfs_reachable: "set (bfs g s) = (edgesOf g)\<^sup>* `` {s}"
proof
  show "set (bfs g s) \<subseteq> (edgesOf g)\<^sup>* `` {s}"
    unfolding bfs_def by (rule bfsLoop_sound) auto
next
  have cl: "s \<in> set (bfs g s) \<and> (\<forall>x \<in> set (bfs g s). \<forall>u \<in> set (getOrEmpty g x). u \<in> set (bfs g s))"
    using bfsLoop_closed [of "[s]" "[s]" g "\<lambda>u. True"] unfolding bfs_def by auto
  have "t \<in> set (bfs g s)" if "(s, t) \<in> (edgesOf g)\<^sup>*" for t
    using that
  proof (induction rule: rtrancl_induct)
    case base
    show ?case using cl by simp
  next
    case (step y z)
    then show ?case using cl by (auto simp: edgesOf_def)
  qed
  then show "(edgesOf g)\<^sup>* `` {s} \<subseteq> set (bfs g s)" by auto
qed





lemma edgesOf_sym: "symmetricG g \<Longrightarrow> sym (edgesOf g)"
  by (auto simp: symmetricG_def edgesOf_def sym_def)

subsection \<open>Line--Neutral shorts\<close>

lemma ex_noid_adj:
  "buildAdjacency [exSupplyNoId] [exWire ''w1'' [] ''sN'' ''L''] = [([], [''sN'']), (''sN'', [[]])]"
  by (simp add: buildAdjacency_def exSupplyNoId_def exWire_def addEdge_def hasKey_def
      getOrEmpty_def setAdd_def linksOf_def)

text \<open>
  Claim C2 says that for every circuit with a supply, if the supply's Neutral terminal is
  reachable from its Line terminal in the analysis graph, \<open>shorts\<close> has an L-N entry. The
  source tests \<open>supplyL && reachL.has(supplyN)\<close> with \<open>reachL\<close> empty for a falsy
  \<open>supplyL\<close>, and the empty string is falsy: for a supply whose Line terminal has the
  empty identifier, wired to its Neutral terminal, the Neutral terminal is a neighbour of
  the Line terminal and \<open>shorts\<close> stays empty.
\<close>

theorem analysis_empty_id_counterexample:
  "find (\<lambda>c. ctype c = ''SUPPLY'') [exSupplyNoId] = Some exSupplyNoId \<and>
   termIdByName exSupplyNoId ''L'' = Some [] \<and>
   termIdByName exSupplyNoId ''N'' = Some ''sN'' \<and>
   ''sN'' \<in> set (getOrEmpty (buildAdjacency [exSupplyNoId] [exWire ''w1'' [] ''sN'' ''L'']) []) \<and>
   ''sN'' \<in> set (bfs (buildAdjacency [exSupplyNoId] [exWire ''w1'' [] ''sN'' ''L'']) []) \<and>
   shorts (analysis [exSupplyNoId] [exWire ''w1'' [] ''sN'' ''L'']) = []"
  unfolding analysis_def ex_noid_adj
  by (simp add: exSupplyNoId_def termIdByName_def findByName_def getOrEmpty_def bfs_def
      reachFrom_def truthyOpt_def truthy_def hasOpt_def)

text \<open>
  Claim C2 as amended. For every circuit with a supply whose Line terminal has a non-empty
  identifier: if the supply's Neutral terminal is reachable from the supply's Line
  terminal in the graph of \<open>buildAdjacency\<close>, or the Line-reachable and Neutral-reachable
  sets computed by the analysis intersect, \<open>shorts\<close> contains the L-N entry.
\<close>

theorem analysis_reports_LN:
  assumes "find (\<lambda>c. ctype c = ''SUPPLY'') comps = Some supply"
    and "termIdByName supply ''L'' = Some l" and "truthy l"
  shows "(\<forall>n. termIdByName supply ''N'' = Some n \<and>
            (l, n) \<in> (edgesOf (buildAdjacency comps wires))\<^sup>* \<longrightarrow>
            ShortLN \<in> set (shorts (analysis comps wires))) \<and>
         (set (reachFrom (buildAdjacency comps wires) (termIdByName supply ''L'')) \<inter>
          set (reachFrom (buildAdjacency comps wires) (termIdByName supply ''N'')) \<noteq> {} \<longrightarrow>
            ShortLN \<in> set (shorts (analysis comps wires)))"
proof -
  let ?adj = "buildAdjacency comps wires"
  have 1: "ShortLN \<in> set (shorts (analysis comps wires))"
    if n: "termIdByName supply ''N'' = Some n" and r: "(l, n) \<in> (edgesOf ?adj)\<^sup>*" for n
  proof -
    from r have "n \<in> set (bfs ?adj l)" by (simp add: bfs_reachable)
    with assms n show ?thesis
      by (simp add: analysis_def Let_def reachFrom_def truthyOpt_def hasOpt_def)
  qed
  have 2: "ShortLN \<in> set (shorts (analysis comps wires))"
    if i: "set (reachFrom ?adj (termIdByName supply ''L'')) \<inter>
           set (reachFrom ?adj (termIdByName supply ''N'')) \<noteq> {}"
  proof -
    from i obtain x where x: "x \<in> set (reachFrom ?adj (termIdByName supply ''L''))"
      "x \<in> set (reachFrom ?adj (termIdByName supply ''N''))" by blast
    from x(2) obtain n where n: "termIdByName supply ''N'' = Some n" "x \<in> set (bfs ?adj n)"
      by (cases "termIdByName supply ''N''") (auto simp: reachFrom_def split: if_splits)
    from x(1) assms have "x \<in> set (bfs ?adj l)" by (simp add: reachFrom_def)
    then have lx: "(l, x) \<in> (edgesOf ?adj)\<^sup>*" by (simp add: bfs_reachable)
    from n(2) have "(n, x) \<in> (edgesOf ?adj)\<^sup>*" by (simp add: bfs_reachable)
    moreover have "sym ((edgesOf ?adj)\<^sup>*)"
      by (intro sym_rtrancl edgesOf_sym symmetricG_buildAdjacency)
    ultimately have "(x, n) \<in> (edgesOf ?adj)\<^sup>*" by (simp add: sym_def)
    with lx have "(l, n) \<in> (edgesOf ?adj)\<^sup>*" by simp
    with n(1) show ?thesis by (rule 1)
  qed
  from 1 2 show ?thesis by blast
qed

lemma ex_short_adj:
  "buildAdjacency [exSupply] [exWire ''w1'' ''sL'' ''sN'' ''L''] = [(''sL'', [''sN'']), (''sN'', [''sL''])]"
  by (simp add: buildAdjacency_def exSupply_def exWire_def addEdge_def hasKey_def getOrEmpty_def
      setAdd_def linksOf_def)

theorem analysis_reports_LN_witness:
  "find (\<lambda>c. ctype c = ''SUPPLY'') [exSupply] = Some exSupply \<and>
   termIdByName exSupply ''L'' = Some ''sL'' \<and> truthy ''sL'' \<and>
   termIdByName exSupply ''N'' = Some ''sN'' \<and>
   (''sL'', ''sN'') \<in> (edgesOf (buildAdjacency [exSupply] [exWire ''w1'' ''sL'' ''sN'' ''L'']))\<^sup>* \<and>
   ShortLN \<in> set (shorts (analysis [exSupply] [exWire ''w1'' ''sL'' ''sN'' ''L'']))"
proof -
  have a: "find (\<lambda>c. ctype c = ''SUPPLY'') [exSupply] = Some exSupply"
    by (simp add: exSupply_def)
  have b: "termIdByName exSupply ''L'' = Some ''sL''"
    and c: "termIdByName exSupply ''N'' = Some ''sN''"
    by (simp_all add: exSupply_def termIdByName_def findByName_def)
  have d: "truthy ''sL''" by (simp add: truthy_def)
  have "(''sL'', ''sN'') \<in> edgesOf (buildAdjacency [exSupply] [exWire ''w1'' ''sL'' ''sN'' ''L''])"
    unfolding ex_short_adj by (simp add: edgesOf_def getOrEmpty_def)
  then have e: "(''sL'', ''sN'') \<in> (edgesOf (buildAdjacency [exSupply] [exWire ''w1'' ''sL'' ''sN'' ''L'']))\<^sup>*"
    by (rule r_into_rtrancl)
  from analysis_reports_LN [OF a b d, of "[exWire ''w1'' ''sL'' ''sN'' ''L'']"] c e
  have "ShortLN \<in> set (shorts (analysis [exSupply] [exWire ''w1'' ''sL'' ''sN'' ''L'']))"
    by blast
  with a b c d e show ?thesis by blast
qed


subsection \<open>Weights of the built graphs\<close>

lemma nonNegative_addW: "nonNegative g \<Longrightarrow> 0 \<le> w \<Longrightarrow> nonNegative (addW g a b w)"
  unfolding nonNegative_def addW_nbrs by auto

lemma nonNegative_empty: "nonNegative []"
  by (simp add: nonNegative_def getOrEmpty_def)

lemma rPerMOf_nonneg: "0 \<le> rPerMOf w key"
  by (auto simp: rPerMOf_def getRPerM_def R_PER_M_def split: option.splits if_splits)

lemma hypot_nonneg: "0 \<le> hypot x y"
  by (simp add: hypot_def)

lemma pxDistance_nonneg: "pxDistanceBetweenTerminals comps a b = Some d \<Longrightarrow> 0 \<le> d"
  using hypot_nonneg
  by (auto simp: pxDistanceBetweenTerminals_def split: option.splits)

lemma wire_weight_nonneg:
  "0 \<le> m \<Longrightarrow> 0 \<le> (if hr then m * rPerMOf w key + 2 * CONTACT_R + 1
                      else m * rPerMOf w key + 2 * CONTACT_R)"
  using rPerMOf_nonneg [of w key] by (simp add: CONTACT_R_def)

lemma nonNegative_addWire:
  assumes "nonNegative g"
  shows "nonNegative (addWire comps al key g w)"
proof -
  let ?geo = "map_option (\<lambda>d. d / PX_PER_M) (pxDistanceBetweenTerminals comps (wa w) (wb w))"
  let ?dm = "case lengthM w of Some l \<Rightarrow> if l > 0 then Some l else ?geo | None \<Rightarrow> ?geo"
  have geo: "0 \<le> m" if "?geo = Some m" for m
    using that pxDistance_nonneg [of comps "wa w" "wb w"] by (auto simp: PX_PER_M_def)
  have dm: "0 \<le> m" if "?dm = Some m" for m
    using that geo by (auto split: option.splits if_splits)
  show ?thesis
  proof (cases ?dm)
    case None
    then show ?thesis using assms unfolding addWire_def by simp
  next
    case (Some m)
    from dm [OF Some] have "0 \<le> (if fault w = Some ''hr'' then m * rPerMOf w key + 2 * CONTACT_R + 1
                      else m * rPerMOf w key + 2 * CONTACT_R)"
      by (rule wire_weight_nonneg)
    from nonNegative_addW [OF assms this, of "wa w" "wb w"] assms Some
    show ?thesis unfolding addWire_def Let_def by simp
  qed
qed

lemma nonNegative_addWeightedLink: "nonNegative g \<Longrightarrow> nonNegative (addWeightedLink al ts g l)"
  by (auto simp: addWeightedLink_def CONTACT_R_def nonNegative_addW split: option.splits)

lemma nonNegative_buildWeightedSubgraph: "nonNegative (buildWeightedSubgraph comps wires al key)"
proof -
  have 1: "nonNegative (foldl (addWire comps al key) [] wires)"
    by (rule foldl_preserves) (simp_all add: nonNegative_empty nonNegative_addWire)
  have 2: "nonNegative (foldl (addWeightedLink al ts) g ls)" if "nonNegative g" for g ts ls
    using that by (rule foldl_preserves) (simp add: nonNegative_addWeightedLink)
  show ?thesis
    unfolding buildWeightedSubgraph_def Let_def
    by (rule foldl_preserves) (simp_all add: 1 2)
qed


lemma foldl_upd_dom:
  "foldl (\<lambda>m t. m(tid t \<mapsto> ttype t)) m0 ts i \<noteq> None \<Longrightarrow>
     m0 i \<noteq> None \<or> (\<exists>t \<in> set ts. tid t = i)"
  by (induction ts arbitrary: m0) (fastforce split: if_splits)+

lemma terminalById_defined:
  "\<exists>c \<in> set comps. \<exists>t \<in> set (terminals c). tid t = i \<Longrightarrow> terminalById comps i \<noteq> None"
  by (induction comps) (auto simp: find_None_iff split: option.splits)

lemma pxDistance_defined:
  assumes "hasType al (termTypeById comps a)" and "hasType al (termTypeById comps b)"
  shows "pxDistanceBetweenTerminals comps a b \<noteq> None"
proof -
  have "terminalById comps i \<noteq> None" if "hasType al (termTypeById comps i)" for i
  proof -
    from that have "termTypeById comps i \<noteq> None"
      by (cases "termTypeById comps i") (auto simp: hasType_def)
    from foldl_upd_dom [OF this [unfolded termTypeById_def]]
    have "\<exists>c \<in> set comps. \<exists>t \<in> set (terminals c). tid t = i" by auto
    then show ?thesis by (rule terminalById_defined)
  qed
  from this [OF assms(1)] this [OF assms(2)] show ?thesis
    by (auto simp: pxDistanceBetweenTerminals_def terminalAbsPosById_def split: option.splits)
qed


lemma measureResistance_weights:
  "nonNegative (buildWeightedSubgraph comps wires LineTermTypes ''L'') \<and>
   nonNegative (buildWeightedSubgraph comps wires NeutralTermTypes ''N'') \<and>
   nonNegative (buildWeightedSubgraph comps wires EarthTermTypes ''E'')"
  by (simp add: nonNegative_buildWeightedSubgraph)

subsection \<open>Voltage readings and reachability\<close>














lemma findByName_mem: "findByName ts n = Some t \<Longrightarrow> t \<in> set ts"
  by (auto simp: findByName_def find_Some_iff)

lemma terminalById_Some:
  "terminalById comps i = Some (c, t) \<Longrightarrow> c \<in> set comps \<and> t \<in> set (terminals c) \<and> tid t = i"
  by (induction comps) (auto simp: find_Some_iff split: option.splits)





text \<open>The supply terminal that seeds a family: the first terminal of the supply with the
  name, or else the first one of the type.\<close>

lemma supplyTerminal_char:
  assumes "supply \<in> set comps" and "\<forall>t \<in> set (terminals supply). tid t \<noteq> []"
  shows "supplyTerminal comps supply n ty =
     (case findByName (terminals supply) n of
        Some t \<Rightarrow> Some (tid t)
      | None \<Rightarrow> map_option tid (find (\<lambda>t. ttype t = ty) (terminals supply)))"
proof -
  define wanted where "wanted =
     (case findByName (terminals supply) n of
        Some t \<Rightarrow> Some (tid t)
      | None \<Rightarrow> map_option tid (find (\<lambda>t. ttype t = ty) (terminals supply)))"
  have w: "supplyTerminal comps supply n ty =
     (case wanted of None \<Rightarrow> None
      | Some i \<Rightarrow> map_option (\<lambda>hit. tid (snd hit)) (terminalById comps i))"
    using assms(2)
    by (auto simp: supplyTerminal_def wanted_def termIdByName_def truthy_def Let_def
        dest: findByName_mem split: option.splits)
  have "map_option (\<lambda>hit. tid (snd hit)) (terminalById comps i) = Some i" if "wanted = Some i" for i
  proof -
    from that have "\<exists>t \<in> set (terminals supply). tid t = i"
      by (auto simp: wanted_def find_Some_iff dest: findByName_mem split: option.splits)
    with assms(1) have "terminalById comps i \<noteq> None"
      by (intro terminalById_defined) blast
    then obtain c t where "terminalById comps i = Some (c, t)" by auto
    with terminalById_Some [OF this] show ?thesis by simp
  qed
  then show ?thesis unfolding w wanted_def [symmetric] by (cases wanted) simp_all
qed



text \<open>The sets are also read from \<open>buildTypedSubgraph\<close>, which keeps a wire marked \<open>open\<close>
  (claim C1): a lamp behind an open Line wire still reads 230.\<close>

lemma measureVoltage_reads_through_open_wire:
  "measureVoltage [exSupply, exLamp]
     [(exWire ''w1'' ''sL'' ''lL'' ''L'')\<lparr>fault := Some ''open''\<rparr>, exWire ''w2'' ''sN'' ''lN'' ''N'']
     ''lL'' ''lN'' = Some \<lparr>Va = Some 230, Vb = Some 0, Vab = Some 230\<rparr>"
proof -
  have "[(exWire ''w1'' ''sL'' ''lL'' ''L'')\<lparr>fault := Some ''open''\<rparr>, exWire ''w2'' ''sN'' ''lN'' ''N'']
        = map (\<lambda>w. w\<lparr>fault := (if wid w = ''w1'' then Some ''open'' else fault w)\<rparr>) exWires"
    by (simp add: exWires_def exWire_def)
  then have "measureVoltage [exSupply, exLamp]
     [(exWire ''w1'' ''sL'' ''lL'' ''L'')\<lparr>fault := Some ''open''\<rparr>, exWire ''w2'' ''sN'' ''lN'' ''N'']
     ''lL'' ''lN'' = measureVoltage [exSupply, exLamp] exWires ''lL'' ''lN''"
    by (simp only: measureVoltage_def lineReach_def neutralReach_def earthReach_def
        buildTypedSubgraph_ignores_fault)
  then show ?thesis
    by (simp add: ex_measureVoltage nodeV_def SYSTEM_V_def Let_def)
qed


text \<open>An empty string is falsy, so a supply terminal whose identifier is the empty string
  seeds nothing (\<open>supplyL ? reach(gL, supplyL) : new Set()\<close>), whatever is wired to it.\<close>

lemma measureVoltage_empty_supply_id:
  "supplyTerminal [exSupplyNoId, exLamp] exSupplyNoId ''L'' ''L'' = Some [] \<and>
   spec_joined [exSupplyNoId, exLamp] [exWire ''w1'' [] ''lL'' ''L''] LineTermTypes [] ''lL'' \<and>
   map_option Va (measureVoltage [exSupplyNoId, exLamp] [exWire ''w1'' [] ''lL'' ''L''] ''lL'' ''sN'')
     = Some None"
proof -
  have s: "supplyTerminal [exSupplyNoId, exLamp] exSupplyNoId ''L'' ''L'' = Some []"
    by (simp add: supplyTerminal_def termIdByName_def findByName_def exSupplyNoId_def truthy_def)
  have j: "spec_joined [exSupplyNoId, exLamp] [exWire ''w1'' [] ''lL'' ''L''] LineTermTypes [] ''lL''"
    by (simp add: spec_joined_def exWire_def exSupplyNoId_def exLamp_def termTypeById_def
        hasType_def LineTermTypes_def)
  have f: "findSupply [exSupplyNoId, exLamp] = Some exSupplyNoId"
    by (simp add: findSupply_def exSupplyNoId_def)
  have l: "lineReach [exSupplyNoId, exLamp] [exWire ''w1'' [] ''lL'' ''L''] exSupplyNoId = []"
    by (simp add: lineReach_def s reachFromSupply_def truthy_def)
  have gn: "buildTypedSubgraph [exSupplyNoId, exLamp] [exWire ''w1'' [] ''lL'' ''L''] NeutralTermTypes = []"
    by (simp add: exSupplyNoId_def exLamp_def exWire_def build_simps)
  have ge: "buildTypedSubgraph [exSupplyNoId, exLamp] [exWire ''w1'' [] ''lL'' ''L''] EarthTermTypes = []"
    by (simp add: exSupplyNoId_def exLamp_def exWire_def build_simps)
  have r: "reachFromSupply [] x = []" for x
    by (simp add: reachFromSupply_def bfsSet_def hasKey_def split: option.splits)
  have "map_option Va (measureVoltage [exSupplyNoId, exLamp] [exWire ''w1'' [] ''lL'' ''L''] ''lL'' ''sN'')
     = Some None"
    unfolding measureVoltage_def f option.case l neutralReach_def earthReach_def gn ge r
    by (simp add: nodeV_def)
  with s j show ?thesis by simp
qed





subsection \<open>The shortest-path loop\<close>

lemma pickMin_ok:
  assumes "set vs \<subseteq> dom dst" and "pickOk dst A st"
  shows "pickOk dst (A \<union> set vs) (pickMin dst vs st)"
  using assms
proof (induction vs arbitrary: A st)
  case Nil
  then show ?case by simp
next
  case (Cons v vs)
  obtain u best where st: "st = (u, best)" by (cases st)
  from Cons.prems(1) obtain dv where dv: "dst v = Some dv" by auto
  have vs: "set vs \<subseteq> dom dst" using Cons.prems(1) by simp
  have step: "pickOk dst (insert v A)
      (if xless (distOf dst v) best then (Some v, distOf dst v) else (u, best))"
  proof (cases u)
    case None
    with Cons.prems(2) st have "best = Infinity" "A = {}" by (auto simp: pickOk_def)
    then show ?thesis using dv by (simp add: pickOk_def distOf_def)
  next
    case (Some x)
    with Cons.prems(2) st obtain d where d: "best = Fin d" "dst x = Some d" "x \<in> A"
      "\<forall>a \<in> A. \<forall>da. dst a = Some da \<longrightarrow> d \<le> da" by (auto simp: pickOk_def)
    show ?thesis
    proof (cases "dv < d")
      case True
      then have "\<forall>a \<in> insert v A. \<forall>da. dst a = Some da \<longrightarrow> dv \<le> da"
        using d(4) dv by force
      with True d(1) dv show ?thesis by (simp add: pickOk_def distOf_def)
    next
      case False
      then have "\<forall>a \<in> insert v A. \<forall>da. dst a = Some da \<longrightarrow> d \<le> da"
        using d(4) dv by force
      with False d dv Some show ?thesis by (simp add: pickOk_def distOf_def)
    qed
  qed
  have "pickMin dst (v # vs) st =
      pickMin dst vs (if xless (distOf dst v) best then (Some v, distOf dst v) else (u, best))"
    by (simp add: st)
  moreover have "A \<union> set (v # vs) = insert v A \<union> set vs" by auto
  ultimately show ?case using Cons.IH [OF vs step] by simp
qed

lemma pickMin_min:
  assumes "set pq \<subseteq> dom dst" and "pq \<noteq> []"
  shows "\<exists>u d. fst (pickMin dst pq (None, Infinity)) = Some u \<and> u \<in> set pq \<and> dst u = Some d \<and>
           (\<forall>q \<in> set pq. \<forall>dq. dst q = Some dq \<longrightarrow> d \<le> dq)"
proof -
  have "pickOk dst ({} \<union> set pq) (pickMin dst pq (None, Infinity))"
    by (rule pickMin_ok [OF assms(1)]) (simp add: pickOk_def)
  with assms(2) show ?thesis
    by (cases "fst (pickMin dst pq (None, Infinity))") (auto simp: pickOk_def)
qed


lemma dinv_relax_step:
  assumes inv: "dinv g start (dst, prev, pq)"
    and u: "dst u = Some du" "u \<notin> set pq"
    and umax: "\<forall>s ds. dst s = Some ds \<and> s \<notin> set pq \<longrightarrow> ds \<le> du"
    and w: "0 \<le> w" and e: "(u, to) \<in> wedges g"
    and lt: "xless (Fin (du + w)) (distOf dst to)"
  shows "dinv g start (dst(to \<mapsto> du + w), prev(to \<mapsto> u), setAdd to pq) \<and>
         to \<noteq> u \<and> (to \<in> dom dst \<longrightarrow> to \<in> set pq)"
proof -
  from inv have i1: "set pq \<subseteq> dom dst"
    and i2: "\<forall>s q ds dq. dst s = Some ds \<and> s \<notin> set pq \<and> q \<in> set pq \<and> dst q = Some dq \<longrightarrow> ds \<le> dq"
    and i3: "\<forall>v d. dst v = Some d \<longrightarrow> 0 \<le> d"
    and i4: "start \<in> dom dst"
    and i6: "dom dst \<subseteq> (wedges g)\<^sup>* `` {start}"
    and i8: "\<forall>v p. prev v = Some p \<longrightarrow> p \<in> dom dst \<and> p \<notin> set pq"
    and i7: "wf {(p, v). prev v = Some p \<and> v \<noteq> start}"
    by (simp_all add: dinv_def)
  have tu: "to \<noteq> u"
  proof
    assume "to = u"
    with lt u(1) w show False by (simp add: distOf_def)
  qed
  have ts: "to \<in> set pq" if "to \<in> dom dst"
  proof (rule ccontr)
    assume n: "to \<notin> set pq"
    from that obtain dt where dt: "dst to = Some dt" by auto
    with umax n have "dt \<le> du" by blast
    with lt dt w show False by (simp add: distOf_def)
  qed
  have du0: "0 \<le> du" using i3 u(1) by blast
  let ?dst = "dst(to \<mapsto> du + w)" and ?prev = "prev(to \<mapsto> u)" and ?pq = "setAdd to pq"
  have pq: "set ?pq = insert to (set pq)" by (auto simp: setAdd_def)
  have n1: "set ?pq \<subseteq> dom ?dst" using i1 pq by auto
  have n2: "\<forall>s q ds dq. ?dst s = Some ds \<and> s \<notin> set ?pq \<and> q \<in> set ?pq \<and> ?dst q = Some dq \<longrightarrow> ds \<le> dq"
  proof (intro allI impI)
    fix s q ds dq
    assume a: "?dst s = Some ds \<and> s \<notin> set ?pq \<and> q \<in> set ?pq \<and> ?dst q = Some dq"
    then have s: "s \<noteq> to" "dst s = Some ds" "s \<notin> set pq" using pq by (auto split: if_splits)
    show "ds \<le> dq"
    proof (cases "q = to")
      case True
      with a have "dq = du + w" by simp
      moreover from umax s have "ds \<le> du" by blast
      ultimately show ?thesis using w by simp
    next
      case False
      with a pq have "q \<in> set pq" "dst q = Some dq" by auto
      with i2 s show ?thesis by blast
    qed
  qed
  have n3: "\<forall>v d. ?dst v = Some d \<longrightarrow> 0 \<le> d"
    using i3 du0 w by (auto split: if_splits)
  have n4: "start \<in> dom ?dst" using i4 by auto
  have "u \<in> (wedges g)\<^sup>* `` {start}" using i6 u(1) by auto
  with e have "to \<in> (wedges g)\<^sup>* `` {start}" by (auto intro: rtrancl_into_rtrancl)
  with i6 have n6: "dom ?dst \<subseteq> (wedges g)\<^sup>* `` {start}" by auto
  have n8: "\<forall>v p. ?prev v = Some p \<longrightarrow> p \<in> dom ?dst \<and> p \<notin> set ?pq"
  proof (intro allI impI)
    fix v p assume a: "?prev v = Some p"
    show "p \<in> dom ?dst \<and> p \<notin> set ?pq"
    proof (cases "v = to")
      case True
      with a have "p = u" by simp
      with u tu pq show ?thesis by auto
    next
      case False
      with a i8 have p: "p \<in> dom dst" "p \<notin> set pq" by auto
      with ts have "p \<noteq> to" by auto
      with p pq show ?thesis by auto
    qed
  qed
  let ?r = "{(p, v). prev v = Some p \<and> v \<noteq> start}"
  have "(to, u) \<notin> ?r\<^sup>*"
  proof
    assume "(to, u) \<in> ?r\<^sup>*"
    then show False
    proof (cases rule: converse_rtranclE)
      case base
      with tu show False by simp
    next
      case (step x)
      then have "prev x = Some to" by simp
      with i8 have "to \<in> dom dst" "to \<notin> set pq" by auto
      with ts show False by auto
    qed
  qed
  with i7 have "wf (insert (u, to) ?r)" by (simp add: wf_insert)
  moreover have "{(p, v). ?prev v = Some p \<and> v \<noteq> start} \<subseteq> insert (u, to) ?r"
    by (auto split: if_splits)
  ultimately have n7: "wf {(p, v). ?prev v = Some p \<and> v \<noteq> start}"
    by (rule wf_subset)
  from n1 n2 n3 n4 n6 n8 n7 have "dinv g start (?dst, ?prev, ?pq)"
    unfolding dinv_def by simp
  with tu ts show ?thesis by blast
qed


lemma relax_inv:
  assumes "\<forall>e \<in> set es. 0 \<le> snd e \<and> (u, fst e) \<in> wedges g"
    and "dinv g start (dst, prev, pq)"
    and "dst u = Some du" "u \<notin> set pq"
    and "\<forall>s ds. dst s = Some ds \<and> s \<notin> set pq \<longrightarrow> ds \<le> du"
  shows "\<exists>dst' prev' pq'. relax u es (dst, prev, pq) = (dst', prev', pq') \<and>
           dinv g start (dst', prev', pq') \<and>
           dom dst' - set pq' = dom dst - set pq \<and> dom dst \<subseteq> dom dst' \<and>
           (\<forall>e \<in> set es. fst e \<in> dom dst')"
  using assms
proof (induction es arbitrary: dst prev pq)
  case Nil
  then show ?case by simp
next
  case (Cons e es)
  obtain to w where e: "e = (to, w)" by (cases e)
  from Cons.prems(1) e have w: "0 \<le> w" and ed: "(u, to) \<in> wedges g"
    and rest: "\<forall>e \<in> set es. 0 \<le> snd e \<and> (u, fst e) \<in> wedges g" by auto
  note inv = Cons.prems(2) and u = Cons.prems(3,4) and umax = Cons.prems(5)
  have du: "distOf dst u = Fin du" using u(1) by (simp add: distOf_def)
  show ?case
  proof (cases "xless (Fin (du + w)) (distOf dst to)")
    case True
    let ?dst = "dst(to \<mapsto> du + w)" and ?prev = "prev(to \<mapsto> u)" and ?pq = "setAdd to pq"
    from dinv_relax_step [OF inv u umax w ed True]
    have n: "dinv g start (?dst, ?prev, ?pq)" "to \<noteq> u" "to \<in> dom dst \<longrightarrow> to \<in> set pq"
      by auto
    have pq: "set ?pq = insert to (set pq)" by (auto simp: setAdd_def)
    have u': "?dst u = Some du" "u \<notin> set ?pq" using u n(2) pq by auto
    have umax': "\<forall>s ds. ?dst s = Some ds \<and> s \<notin> set ?pq \<longrightarrow> ds \<le> du"
      using umax pq by (auto split: if_splits)
    from Cons.IH [OF rest n(1) u' umax'] obtain dst' prev' pq' where
      r: "relax u es (?dst, ?prev, ?pq) = (dst', prev', pq')"
         "dinv g start (dst', prev', pq')"
         "dom dst' - set pq' = dom ?dst - set ?pq" "dom ?dst \<subseteq> dom dst'"
         "\<forall>e \<in> set es. fst e \<in> dom dst'"
      by blast
    have 1: "relax u (e # es) (dst, prev, pq) = (dst', prev', pq')"
      using True r(1) du by (simp add: e)
    have 2: "dom dst' - set pq' = dom dst - set pq" using r(3) pq n(3) by auto
    have 3: "dom dst \<subseteq> dom dst'" using r(4) by auto
    have 4: "\<forall>x \<in> set (e # es). fst x \<in> dom dst'" using r(4,5) e by auto
    from 1 r(2) 2 3 4 show ?thesis by blast
  next
    case False
    then have t: "to \<in> dom dst" by (cases "dst to") (auto simp: distOf_def)
    from Cons.IH [OF rest inv u umax] obtain dst' prev' pq' where
      r: "relax u es (dst, prev, pq) = (dst', prev', pq')"
         "dinv g start (dst', prev', pq')"
         "dom dst' - set pq' = dom dst - set pq" "dom dst \<subseteq> dom dst'"
         "\<forall>e \<in> set es. fst e \<in> dom dst'"
      by blast
    have 1: "relax u (e # es) (dst, prev, pq) = (dst', prev', pq')"
      using False r(1) du by (simp add: e)
    have 4: "\<forall>x \<in> set (e # es). fst x \<in> dom dst'" using r(4,5) e t by auto
    from 1 r(2,3,4) 4 show ?thesis by blast
  qed
qed

text \<open>Removing the node picked by the scan keeps the invariant and makes it settled.\<close>

lemma dinv_extract:
  assumes inv: "dinv g start (dst, prev, pq)"
    and u: "u \<in> set pq" "dst u = Some du"
    and umin: "\<forall>q \<in> set pq. \<forall>dq. dst q = Some dq \<longrightarrow> du \<le> dq"
  shows "dinv g start (dst, prev, removeAll u pq) \<and>
         (\<forall>s ds. dst s = Some ds \<and> s \<notin> set (removeAll u pq) \<longrightarrow> ds \<le> du)"
proof -
  from inv have i1: "set pq \<subseteq> dom dst"
    and i2: "\<forall>s q ds dq. dst s = Some ds \<and> s \<notin> set pq \<and> q \<in> set pq \<and> dst q = Some dq \<longrightarrow> ds \<le> dq"
    and i8: "\<forall>v p. prev v = Some p \<longrightarrow> p \<in> dom dst \<and> p \<notin> set pq"
    by (simp_all add: dinv_def)
  have a: "\<forall>s ds. dst s = Some ds \<and> s \<notin> set (removeAll u pq) \<longrightarrow> ds \<le> du"
  proof (intro allI impI)
    fix s ds assume s: "dst s = Some ds \<and> s \<notin> set (removeAll u pq)"
    show "ds \<le> du"
    proof (cases "s = u")
      case True
      with s u show ?thesis by simp
    next
      case False
      with s have "s \<notin> set pq" by auto
      with i2 s u show ?thesis by blast
    qed
  qed
  have b: "\<forall>s q ds dq. dst s = Some ds \<and> s \<notin> set (removeAll u pq) \<and> q \<in> set (removeAll u pq) \<and>
             dst q = Some dq \<longrightarrow> ds \<le> dq"
  proof (intro allI impI)
    fix s q ds dq
    assume h: "dst s = Some ds \<and> s \<notin> set (removeAll u pq) \<and> q \<in> set (removeAll u pq) \<and>
             dst q = Some dq"
    then have "ds \<le> du" using a by blast
    moreover from h umin have "du \<le> dq" by auto
    ultimately show "ds \<le> dq" by simp
  qed
  have c: "\<forall>v p. prev v = Some p \<longrightarrow> p \<in> dom dst \<and> p \<notin> set (removeAll u pq)"
    using i8 by auto
  have "dinv g start (dst, prev, removeAll u pq)"
    using inv b c i1 unfolding dinv_def by auto
  with a show ?thesis by blast
qed


lemma finite_wreach: "finite ((wedges g)\<^sup>* `` {start})"
proof -
  let ?T = "\<Union> ((\<lambda>es. fst ` set es) ` snd ` set g)"
  have "(wedges g)\<^sup>* `` {start} \<subseteq> insert start ?T"
  proof
    fix y assume "y \<in> (wedges g)\<^sup>* `` {start}"
    then have "(start, y) \<in> (wedges g)\<^sup>*" by simp
    then show "y \<in> insert start ?T"
    proof (cases rule: rtranclE)
      case base
      then show ?thesis by simp
    next
      case (step x)
      then have "y \<in> fst ` set (getOrEmpty g x)" by (simp add: wedges_def)
      then obtain es where "map_of g x = Some es" "y \<in> fst ` set es"
        by (cases "map_of g x") (auto simp: getOrEmpty_def)
      then have "(x, es) \<in> set g" "y \<in> fst ` set es" by (auto dest: map_of_SomeD)
      then have "es \<in> snd ` set g" by force
      with \<open>y \<in> fst ` set es\<close> show ?thesis by blast
    qed
  qed
  moreover have "finite (insert start ?T)" by simp
  ultimately show ?thesis by (rule finite_subset)
qed

lemma dijkstraLoop_total:
  assumes nn: "nonNegative g"
  shows "dinv g start (dst, prev, pq) \<Longrightarrow> closed g (dst, prev, pq) \<Longrightarrow>
     \<exists>dst' prev' pq'. dijkstraLoop g goal (dst, prev, pq) = Some (dst', prev', pq') \<and>
        dinv g start (dst', prev', pq') \<and>
        (goal \<in> dom dst' \<or> (pq' = [] \<and> closed g (dst', prev', pq')))"
proof (induction "card ((wedges g)\<^sup>* `` {start} - (dom dst - set pq))" arbitrary: dst prev pq
    rule: less_induct)
  case less
  note inv = less.prems(1) and cl = less.prems(2)
  show ?case
  proof (cases "pq = []")
    case True
    then have "dijkstraLoop g goal (dst, prev, pq) = Some (dst, prev, pq)"
      by (subst dijkstraLoop.simps) simp
    with inv cl True show ?thesis by blast
  next
    case False
    from inv have i1: "set pq \<subseteq> dom dst" and i6: "dom dst \<subseteq> (wedges g)\<^sup>* `` {start}"
      by (simp_all add: dinv_def)
    from pickMin_min [OF i1 False] obtain u du where
      u: "fst (pickMin dst pq (None, Infinity)) = Some u" "u \<in> set pq" "dst u = Some du"
         "\<forall>q \<in> set pq. \<forall>dq. dst q = Some dq \<longrightarrow> du \<le> dq"
      by blast
    from dinv_extract [OF inv u(2,3,4)]
    have inv1: "dinv g start (dst, prev, removeAll u pq)"
      and umax: "\<forall>s ds. dst s = Some ds \<and> s \<notin> set (removeAll u pq) \<longrightarrow> ds \<le> du"
      by auto
    show ?thesis
    proof (cases "u = goal")
      case True
      have "dijkstraLoop g goal (dst, prev, pq) = Some (dst, prev, removeAll u pq)"
        using False u(1) True by (subst dijkstraLoop.simps) simp
      moreover have "goal \<in> dom dst" using True u(3) by auto
      ultimately show ?thesis using inv1 by blast
    next
      case ng: False
      have es: "\<forall>e \<in> set (getOrEmpty g u). 0 \<le> snd e \<and> (u, fst e) \<in> wedges g"
        using nn by (auto simp: nonNegative_def wedges_def)
      have un: "u \<notin> set (removeAll u pq)" by simp
      from relax_inv [OF es inv1 u(3) un umax] obtain dst' prev' pq' where
        r: "relax u (getOrEmpty g u) (dst, prev, removeAll u pq) = (dst', prev', pq')"
           "dinv g start (dst', prev', pq')"
           "dom dst' - set pq' = dom dst - set (removeAll u pq)" "dom dst \<subseteq> dom dst'"
           "\<forall>e \<in> set (getOrEmpty g u). fst e \<in> dom dst'"
        by blast
      have S: "dom dst' - set pq' = insert u (dom dst - set pq)"
        using r(3) u(2,3) by auto
      have "\<forall>s \<in> dom dst' - set pq'. \<forall>e \<in> set (getOrEmpty g s). fst e \<in> dom dst'"
      proof (intro ballI)
        fix s e
        assume s: "s \<in> dom dst' - set pq'" and e: "e \<in> set (getOrEmpty g s)"
        from s S have "s = u \<or> s \<in> dom dst - set pq" by auto
        then show "fst e \<in> dom dst'"
        proof
          assume "s = u"
          with r(5) e show ?thesis by blast
        next
          assume "s \<in> dom dst - set pq"
          with cl e have "fst e \<in> dom dst" unfolding closed_def by blast
          with r(4) show ?thesis by auto
        qed
      qed
      then have cl': "closed g (dst', prev', pq')"
        unfolding closed_def by simp
      have "u \<in> (wedges g)\<^sup>* `` {start}" using i6 u(3) by auto
      then have "(wedges g)\<^sup>* `` {start} - (dom dst' - set pq')
                 \<subset> (wedges g)\<^sup>* `` {start} - (dom dst - set pq)"
        using S u(2) by auto
      then have m: "card ((wedges g)\<^sup>* `` {start} - (dom dst' - set pq'))
                 < card ((wedges g)\<^sup>* `` {start} - (dom dst - set pq))"
        by (intro psubset_card_mono finite_Diff finite_wreach)
      from less.hyps [OF m r(2) cl'] obtain dst2 prev2 pq2 where
        f: "dijkstraLoop g goal (dst', prev', pq') = Some (dst2, prev2, pq2)"
           "dinv g start (dst2, prev2, pq2)"
           "goal \<in> dom dst2 \<or> (pq2 = [] \<and> closed g (dst2, prev2, pq2))"
        by blast
      have "dijkstraLoop g goal (dst, prev, pq) = dijkstraLoop g goal (dst', prev', pq')"
        using False u(1) ng r(1) by (subst dijkstraLoop.simps) simp
      with f show ?thesis by auto
    qed
  qed
qed

lemma rebuildPath_total:
  assumes "wf {(p, v). prev v = Some p \<and> v \<noteq> start}"
  shows "\<exists>p. rebuildPath prev start v acc = Some p"
  using assms
proof (induction v arbitrary: acc rule: wf_induct_rule)
  case (less v)
  show ?case
  proof (cases "v = start")
    case True
    then show ?thesis by (subst rebuildPath.simps) simp
  next
    case False
    show ?thesis
    proof (cases "prev v")
      case None
      with False show ?thesis by (subst rebuildPath.simps) simp
    next
      case (Some p)
      with False have "(p, v) \<in> {(p, v). prev v = Some p \<and> v \<noteq> start}" by simp
      from less.IH [OF this, of "acc @ [v]"] obtain r where
        "rebuildPath prev start p (acc @ [v]) = Some r" by blast
      with False Some show ?thesis by (subst rebuildPath.simps) simp
    qed
  qed
qed


lemma ex_wgraph:
  "buildWeightedSubgraph [exSupply, exLamp] [exWire ''w1'' ''sL'' ''lL'' ''L''] LineTermTypes ''L''
     = [(''sL'', [(''lL'', 1005 / 10000)]), (''lL'', [(''sL'', 1005 / 10000)])]"
  by (simp add: buildWeightedSubgraph_def addWire_def addW_def isMatch_def rPerMOf_def
      getRPerM_def CONTACT_R_def ex_defs termTypeById_def hasType_def LineTermTypes_def
      hasKey_def getOrEmpty_def linksOf_def Let_def)

lemma ex_dijkstra:
  "dijkstraWeighted [(''sL'', [(''lL'', 1005 / 10000)]), (''lL'', [(''sL'', 1005 / 10000)])]
     ''sL'' ''lL'' = Some \<lparr>R = Fin (1005 / 10000), path = Some [''sL'', ''lL'']\<rparr>"
  by (simp add: dijkstraWeighted_def truthy_def hasKey_def dijkstraLoop.simps
      rebuildPath.simps distOf_def getOrEmpty_def setAdd_def)

lemma ex_noid_wgraph:
  "buildWeightedSubgraph [exSupplyNoId, exLamp] [exWire ''w1'' [] ''lL'' ''L''] LineTermTypes ''L''
     = [([], [(''lL'', 1005 / 10000)]), (''lL'', [([], 1005 / 10000)])]"
  by (simp add: buildWeightedSubgraph_def addWire_def addW_def isMatch_def rPerMOf_def
      getRPerM_def CONTACT_R_def ex_defs exSupplyNoId_def termTypeById_def hasType_def
      LineTermTypes_def hasKey_def getOrEmpty_def linksOf_def Let_def)

text \<open>
  Claim C6 says that the solver returns a finite non-negative resistance whenever start and
  goal are in the graph and a path connects them. The source returns \<open>Infinity\<close> at once
  when \<open>!start || !goal\<close>, and the empty string is falsy: in the Line graph of a supply
  whose Line terminal has the empty identifier, wired to the lamp, both nodes are present
  and adjacent, and the reading from the one to the other is \<open>Infinity\<close> with no path.
\<close>

theorem dijkstraWeighted_empty_id_counterexample:
  "hasKey (buildWeightedSubgraph [exSupplyNoId, exLamp] [exWire ''w1'' [] ''lL'' ''L'']
      LineTermTypes ''L'') [] \<and>
   hasKey (buildWeightedSubgraph [exSupplyNoId, exLamp] [exWire ''w1'' [] ''lL'' ''L'']
      LineTermTypes ''L'') ''lL'' \<and>
   ([], ''lL'') \<in> wedges (buildWeightedSubgraph [exSupplyNoId, exLamp]
      [exWire ''w1'' [] ''lL'' ''L''] LineTermTypes ''L'') \<and>
   dijkstraWeighted (buildWeightedSubgraph [exSupplyNoId, exLamp] [exWire ''w1'' [] ''lL'' ''L'']
      LineTermTypes ''L'') [] ''lL'' = Some \<lparr>R = Infinity, path = None\<rparr>"
  unfolding ex_noid_wgraph
  by (simp add: hasKey_def wedges_def getOrEmpty_def dijkstraWeighted_def truthy_def)

lemma dijkstraWeighted_total:
  assumes "nonNegative g"
  shows "(\<not> truthy start \<or> \<not> truthy goal \<or> \<not> hasKey g start \<or> \<not> hasKey g goal \<or>
            (start, goal) \<notin> (wedges g)\<^sup>* \<longrightarrow>
            dijkstraWeighted g start goal = Some \<lparr>R = Infinity, path = None\<rparr>) \<and>
         (truthy start \<and> truthy goal \<and> hasKey g start \<and> hasKey g goal \<and>
            (start, goal) \<in> (wedges g)\<^sup>* \<longrightarrow>
            (\<exists>r p. dijkstraWeighted g start goal = Some \<lparr>R = Fin r, path = Some p\<rparr> \<and> 0 \<le> r))"
proof -
  let ?st0 = "([start \<mapsto> 0], Map.empty, [start]) :: dstate"
  have inv0: "dinv g start ([start \<mapsto> 0], Map.empty, [start])"
    unfolding dinv_def by (auto split: if_splits)
  have cl0: "closed g ([start \<mapsto> 0], Map.empty, [start])"
    unfolding closed_def by auto
  from dijkstraLoop_total [OF assms inv0 cl0, of goal] obtain dst' prev' pq' where
    f: "dijkstraLoop g goal ([start \<mapsto> 0], Map.empty, [start]) = Some (dst', prev', pq')"
       "dinv g start (dst', prev', pq')"
       "goal \<in> dom dst' \<or> (pq' = [] \<and> closed g (dst', prev', pq'))"
    by blast
  from f(2) have i3: "\<forall>v d. dst' v = Some d \<longrightarrow> 0 \<le> d" and i4: "start \<in> dom dst'"
    and i6: "dom dst' \<subseteq> (wedges g)\<^sup>* `` {start}"
    and i7: "wf {(p, v). prev' v = Some p \<and> v \<noteq> start}"
    by (simp_all add: dinv_def)
  have reach: "goal \<in> dom dst'" if r: "(start, goal) \<in> (wedges g)\<^sup>*"
  proof (cases "goal \<in> dom dst'")
    case True
    then show ?thesis .
  next
    case False
    with f(3) have e: "pq' = []" and c: "closed g (dst', prev', pq')" by auto
    from c e have c': "\<forall>s \<in> dom dst'. \<forall>e \<in> set (getOrEmpty g s). fst e \<in> dom dst'"
      by (simp add: closed_def)
    from r show ?thesis
    proof (induction rule: rtrancl_induct)
      case base
      show ?case by (rule i4)
    next
      case (step y z)
      from step(2) obtain e where "e \<in> set (getOrEmpty g y)" "z = fst e"
        by (auto simp: wedges_def)
      with c' step(3) show ?case by blast
    qed
  qed
  have 1: "dijkstraWeighted g start goal = Some \<lparr>R = Infinity, path = None\<rparr>"
    if h: "\<not> truthy start \<or> \<not> truthy goal \<or> \<not> hasKey g start \<or> \<not> hasKey g goal \<or>
            (start, goal) \<notin> (wedges g)\<^sup>*"
  proof (cases "\<not> truthy start \<or> \<not> truthy goal \<or> \<not> hasKey g start \<or> \<not> hasKey g goal")
    case True
    then show ?thesis by (auto simp: dijkstraWeighted_def)
  next
    case False
    with h have "(start, goal) \<notin> (wedges g)\<^sup>*" by blast
    with i6 have "dst' goal = None" by auto
    with False f(1) show ?thesis by (simp add: dijkstraWeighted_def)
  qed
  have 2: "\<exists>r p. dijkstraWeighted g start goal = Some \<lparr>R = Fin r, path = Some p\<rparr> \<and> 0 \<le> r"
    if h: "truthy start \<and> truthy goal \<and> hasKey g start \<and> hasKey g goal \<and>
            (start, goal) \<in> (wedges g)\<^sup>*"
  proof -
    from h reach obtain d where d: "dst' goal = Some d" by auto
    with i3 have "0 \<le> d" by blast
    moreover from rebuildPath_total [OF i7, of goal "[]"] obtain p where
      "rebuildPath prev' start goal [] = Some p" by blast
    ultimately show ?thesis using h f(1) d by (simp add: dijkstraWeighted_def)
  qed
  from 1 2 show ?thesis by blast
qed

lemma dijkstraWeighted_returns:
  assumes "nonNegative g"
  shows "\<exists>r. dijkstraWeighted g start goal = Some r \<and>
           (R r = Infinity \<and> path r = None \<or> (\<exists>d p. R r = Fin d \<and> 0 \<le> d \<and> path r = Some p))"
proof (cases "truthy start \<and> truthy goal \<and> hasKey g start \<and> hasKey g goal \<and>
            (start, goal) \<in> (wedges g)\<^sup>*")
  case True
  with dijkstraWeighted_total [OF assms, of start goal] obtain d p where
    "dijkstraWeighted g start goal = Some \<lparr>R = Fin d, path = Some p\<rparr>" "0 \<le> d" by blast
  then show ?thesis by simp
next
  case False
  with dijkstraWeighted_total [OF assms, of start goal]
  have "dijkstraWeighted g start goal = Some \<lparr>R = Infinity, path = None\<rparr>" by blast
  then show ?thesis by simp
qed

text \<open>A meter reading always comes back, and each of its three resistances is
  \<open>Infinity\<close> or a number that is not negative.\<close>

lemma measureResistance_returns:
  "\<exists>rl rn re. measureResistance comps wires a b = Some (rl, rn, re) \<and>
     (\<forall>r \<in> {rl, rn, re}. r = Infinity \<or> (\<exists>d. r = Fin d \<and> 0 \<le> d))"
proof -
  have ret: "\<exists>r. dijkstraWeighted (buildWeightedSubgraph comps wires al key) a b = Some r \<and>
           (R r = Infinity \<or> (\<exists>d. R r = Fin d \<and> 0 \<le> d))" for al key
    using dijkstraWeighted_returns [OF nonNegative_buildWeightedSubgraph, of comps wires al key a b]
    by blast
  from ret [of LineTermTypes "''L''"] obtain r1 where
    1: "dijkstraWeighted (buildWeightedSubgraph comps wires LineTermTypes ''L'') a b = Some r1"
       "R r1 = Infinity \<or> (\<exists>d. R r1 = Fin d \<and> 0 \<le> d)" by blast
  from ret [of NeutralTermTypes "''N''"] obtain r2 where
    2: "dijkstraWeighted (buildWeightedSubgraph comps wires NeutralTermTypes ''N'') a b = Some r2"
       "R r2 = Infinity \<or> (\<exists>d. R r2 = Fin d \<and> 0 \<le> d)" by blast
  from ret [of EarthTermTypes "''E''"] obtain r3 where
    3: "dijkstraWeighted (buildWeightedSubgraph comps wires EarthTermTypes ''E'') a b = Some r3"
       "R r3 = Infinity \<or> (\<exists>d. R r3 = Fin d \<and> 0 \<le> d)" by blast
  have "measureResistance comps wires a b = Some (R r1, R r2, R r3)"
    by (simp add: measureResistance_def 1(1) 2(1) 3(1))
  with 1(2) 2(2) 3(2) show ?thesis by simp
qed

text \<open>
  Claim C6 as amended. For every weighted graph without negative weights (such are the
  graphs of \<open>buildWeightedSubgraph\<close>, lemma \<open>nonNegative_buildWeightedSubgraph\<close>) and every
  pair of probe terminals: if start or goal is the empty string or absent from the graph,
  or no path connects them, the solver returns resistance \<open>Infinity\<close> and no path;
  otherwise it returns a finite resistance that is not negative, and a path. In both cases
  the loop ends.
\<close>

theorem dijkstraWeighted_spec:
  assumes "nonNegative g"
  shows "(\<not> truthy start \<or> \<not> truthy goal \<or> \<not> hasKey g start \<or> \<not> hasKey g goal \<or>
            (start, goal) \<notin> (wedges g)\<^sup>* \<longrightarrow>
            dijkstraWeighted g start goal = Some \<lparr>R = Infinity, path = None\<rparr>) \<and>
         (truthy start \<and> truthy goal \<and> hasKey g start \<and> hasKey g goal \<and>
            (start, goal) \<in> (wedges g)\<^sup>* \<longrightarrow>
            (\<exists>r p. dijkstraWeighted g start goal = Some \<lparr>R = Fin r, path = Some p\<rparr> \<and> 0 \<le> r))"
  using assms by (rule dijkstraWeighted_total)

theorem dijkstraWeighted_spec_witness:
  "nonNegative (buildWeightedSubgraph [exSupply, exLamp] [exWire ''w1'' ''sL'' ''lL'' ''L'']
      LineTermTypes ''L'') \<and>
   truthy ''sL'' \<and> truthy ''lL'' \<and>
   (''sL'', ''lL'') \<in> (wedges (buildWeightedSubgraph [exSupply, exLamp]
      [exWire ''w1'' ''sL'' ''lL'' ''L''] LineTermTypes ''L''))\<^sup>* \<and>
   (''sL'', ''sN'') \<notin> (wedges (buildWeightedSubgraph [exSupply, exLamp]
      [exWire ''w1'' ''sL'' ''lL'' ''L''] LineTermTypes ''L''))\<^sup>* \<and>
   dijkstraWeighted (buildWeightedSubgraph [exSupply, exLamp] [exWire ''w1'' ''sL'' ''lL'' ''L'']
      LineTermTypes ''L'') ''sL'' ''lL''
     = Some \<lparr>R = Fin (1005 / 10000), path = Some [''sL'', ''lL'']\<rparr> \<and>
   dijkstraWeighted (buildWeightedSubgraph [exSupply, exLamp] [exWire ''w1'' ''sL'' ''lL'' ''L'']
      LineTermTypes ''L'') ''sL'' ''sN''
     = Some \<lparr>R = Infinity, path = None\<rparr>"
proof -
  let ?g = "buildWeightedSubgraph [exSupply, exLamp] [exWire ''w1'' ''sL'' ''lL'' ''L'']
      LineTermTypes ''L''"
  have nn: "nonNegative ?g" by (rule nonNegative_buildWeightedSubgraph)
  have t: "truthy ''sL''" "truthy ''lL''" by (simp_all add: truthy_def)
  have "(''sL'', ''lL'') \<in> wedges ?g"
    unfolding ex_wgraph by (simp add: wedges_def getOrEmpty_def)
  then have r: "(''sL'', ''lL'') \<in> (wedges ?g)\<^sup>*" by (rule r_into_rtrancl)
  have k: "\<not> hasKey ?g ''sN''" unfolding ex_wgraph by (simp add: hasKey_def)
  from dijkstraWeighted_spec [OF nn, of "''sL''" "''sN''"] k
  have inf: "dijkstraWeighted ?g ''sL'' ''sN'' = Some \<lparr>R = Infinity, path = None\<rparr>"
    by blast
  have nr: "(''sL'', ''sN'') \<notin> (wedges ?g)\<^sup>*"
  proof
    assume "(''sL'', ''sN'') \<in> (wedges ?g)\<^sup>*"
    then show False
    proof (cases rule: rtranclE)
      case base
      then show False by simp
    next
      case (step y)
      then have "''sN'' \<in> fst ` set (getOrEmpty ?g y)" by (simp add: wedges_def)
      then show False unfolding ex_wgraph by (auto simp: getOrEmpty_def split: if_splits)
    qed
  qed
  have "dijkstraWeighted ?g ''sL'' ''lL'' = Some \<lparr>R = Fin (1005 / 10000), path = Some [''sL'', ''lL'']\<rparr>"
    unfolding ex_wgraph by (rule ex_dijkstra)
  with nn t r nr inf show ?thesis by blast
qed


subsection \<open>Ring detection\<close>

lemma nonParent_Cons:
  "nonParent p (u # us) = (if Some u = p then 0 else 1) + nonParent p us"
  by (simp add: nonParent_def)

lemma nonParentSeen_Cons:
  "nonParentSeen p V (u # us) = (if Some u \<noteq> p \<and> u \<in> V then 1 else 0) + nonParentSeen p V us"
  by (simp add: nonParentSeen_def)

lemma nonParentSeen_grow:
  assumes "V \<subseteq> V'" and "u \<in> V'" and "u \<notin> V" and "Some u \<noteq> p"
  shows "nonParentSeen p V us + count_list us u \<le> nonParentSeen p V' us"
  using assms by (induction us) (auto simp: nonParentSeen_Cons nonParentSeen_def)

lemma deg_split: "deg g u = nonParent (Some v) (nbrs g u) + count_list (nbrs g u) v"
proof -
  have "length xs = length (filter (\<lambda>u. Some u \<noteq> Some v) xs) + count_list xs v" for xs :: "string list"
    by (induction xs) auto
  from this [of "nbrs g u"] show ?thesis by (simp add: deg_def nonParent_def)
qed

lemma wedges_nbrs: "((v, u) \<in> wedges g) = (u \<in> set (nbrs g v))"
  by (simp add: wedges_def)

lemma finite_Range_wedges: "finite (Range (wedges g))"
proof -
  let ?T = "\<Union> ((\<lambda>es. fst ` set es) ` snd ` set g)"
  have "Range (wedges g) \<subseteq> ?T"
  proof
    fix y assume "y \<in> Range (wedges g)"
    then obtain x where "y \<in> fst ` set (getOrEmpty g x)" by (auto simp: wedges_def)
    then obtain es where "map_of g x = Some es" "y \<in> fst ` set es"
      by (cases "map_of g x") (auto simp: getOrEmpty_def)
    then have "(x, es) \<in> set g" "y \<in> fst ` set es" by (auto dest: map_of_SomeD)
    then have "es \<in> snd ` set g" by force
    with \<open>y \<in> fst ` set es\<close> show "y \<in> ?T" by blast
  qed
  moreover have "finite ?T" by simp
  ultimately show ?thesis by (rule finite_subset)
qed


lemma dfsLoop_spec:
  "balanced g \<Longrightarrow> dfsPre g v p pre us (fst st) n \<Longrightarrow>
     \<exists>N' c'. dfsLoop n g v p us st = Some (fst st @ N', c') \<and>
        dfsPost g v p us (fst st) (snd st) N' c'"
proof (induction n g v p us st arbitrary: pre rule: dfsLoop.induct)
  case (1 n g v parent st)
  have "dfsLoop n g v parent [] st = Some (fst st @ [], snd st)" by simp
  moreover have "dfsPost g v parent [] (fst st) (snd st) [] (snd st)"
    using "1.prems"(2) by (simp add: dfsPost_def dfsPre_def nonParent_def nonParentSeen_def)
  ultimately show ?case by blast
next
  case (2 n g v parent u us V c)
  note bal = "2.prems"(1)
  from "2.prems"(2) have pre: "nbrs g v = pre @ u # us" "set pre \<subseteq> set V" "v \<in> set V"
    "\<forall>q. parent = Some q \<longrightarrow> q \<in> set V" "distinct V" "card (Range (wedges g) - set V) \<le> n"
    by (simp_all add: dfsPre_def)
  have nb': "nbrs g v = (pre @ [u]) @ us" using pre(1) by simp
  have uv: "(v, u) \<in> wedges g" using pre(1) by (simp add: wedges_nbrs)
  show ?case
  proof (cases "Some u = parent")
    case True
    with pre(4) have uV: "u \<in> set V" by auto
    have "dfsPre g v parent (pre @ [u]) us (fst (V, c)) n"
      using nb' pre uV by (simp add: dfsPre_def)
    from "2.IH"(1) [OF True bal this] obtain N' c' where
      r: "dfsLoop n g v parent us (V, c) = Some (V @ N', c')"
         "dfsPost g v parent us V c N' c'" by auto
    have "dfsLoop n g v parent (u # us) (V, c) = Some (V @ N', c')" using True r(1) by simp
    moreover have "dfsPost g v parent (u # us) V c N' c'"
      using r(2) True uV by (simp add: dfsPost_def nonParent_Cons nonParentSeen_Cons)
    ultimately show ?thesis by auto
  next
    case np: False
    show ?thesis
    proof (cases "u \<in> set V")
      case True
      have pr: "dfsPre g v parent (pre @ [u]) us (fst (V, True)) n"
        using nb' pre True by (simp add: dfsPre_def)
      have nn: "\<not> u \<notin> set V" using True by simp
      from "2.IH"(4) [OF np nn bal pr] obtain N' c' where
        r: "dfsLoop n g v parent us (V, True) = Some (V @ N', c')"
           "dfsPost g v parent us V True N' c'" by auto
      have "dfsLoop n g v parent (u # us) (V, c) = Some (V @ N', c')"
        using np True r(1) by simp
      moreover have "dfsPost g v parent (u # us) V c N' c'"
        using r(2) np True by (simp add: dfsPost_def nonParent_Cons nonParentSeen_Cons)
      ultimately show ?thesis by auto
    next
      case nv: False
      (* u is discovered: the recursive call, then the rest of the loop *)
      have "u \<in> Range (wedges g) - set V" using uv nv by auto
      then have "card (Range (wedges g) - set V) \<noteq> 0"
        using finite_Range_wedges [of g] by auto
      with pre(6) obtain m where n: "n = Suc m" by (cases n) auto
      have sa: "setAdd u V = V @ [u]" using nv by (simp add: setAdd_def)
      have "Range (wedges g) - set (V @ [u]) = (Range (wedges g) - set V) - {u}" by auto
      then have "card (Range (wedges g) - set (V @ [u])) = card (Range (wedges g) - set V) - 1"
        using \<open>u \<in> Range (wedges g) - set V\<close> by simp
      with pre(6) n have fuel: "card (Range (wedges g) - set (V @ [u])) \<le> m" by simp
      have "dfsPre g u (Some v) [] (nbrs g u) (fst (setAdd u V, c)) m"
        using pre(3,5) nv fuel by (simp add: dfsPre_def sa)
      from "2.IH"(2) [OF np nv n bal this] obtain N1 c1 where
        r1: "dfsLoop m g u (Some v) (nbrs g u) (V @ [u], c) = Some ((V @ [u]) @ N1, c1)"
            "dfsPost g u (Some v) (nbrs g u) (V @ [u]) c N1 c1"
        by (auto simp: sa)
      from r1(2) have d1: "distinct ((V @ [u]) @ N1)"
        and s1: "set (nbrs g u) \<subseteq> set ((V @ [u]) @ N1)"
        and cl1: "\<forall>x \<in> set N1. set (nbrs g x) \<subseteq> set ((V @ [u]) @ N1) \<and> (u, x) \<in> (wedges g)\<^sup>*"
        and a1: "2 * length N1 + nonParentSeen (Some v) (set (V @ [u])) (nbrs g u)
                  \<le> nonParent (Some v) (nbrs g u) + sum_list (map (deg g) N1)"
        and b1: "c1 = (c \<or> 2 * length N1 < nonParent (Some v) (nbrs g u) + sum_list (map (deg g) N1))"
        by (simp_all add: dfsPost_def)
      let ?V1 = "(V @ [u]) @ N1"
      have sub: "Range (wedges g) - set ?V1 \<subseteq> Range (wedges g) - set V" by auto
      have "card (Range (wedges g) - set ?V1) \<le> card (Range (wedges g) - set V)"
        by (rule card_mono [OF _ sub]) (simp add: finite_Range_wedges)
      with pre(6) have fuel2: "card (Range (wedges g) - set ?V1) \<le> n" by simp
      have pr2: "dfsPre g v parent (pre @ [u]) us (fst (?V1, c1)) n"
        using nb' pre d1 fuel2 by (auto simp: dfsPre_def)
      have r1': "dfsLoop m g u (Some v) (nbrs g u) (setAdd u V, c) = Some (?V1, c1)"
        using r1(1) by (simp add: sa)
      from "2.IH"(3) [OF np nv n r1' bal pr2] obtain N2 c2 where
        r2: "dfsLoop n g v parent us (?V1, c1) = Some (?V1 @ N2, c2)"
            "dfsPost g v parent us ?V1 c1 N2 c2"
        by (auto simp: sa)
      from r2(2) have d2: "distinct (?V1 @ N2)"
        and s2: "set us \<subseteq> set (?V1 @ N2)"
        and cl2: "\<forall>x \<in> set N2. set (nbrs g x) \<subseteq> set (?V1 @ N2) \<and> (v, x) \<in> (wedges g)\<^sup>*"
        and a2: "2 * length N2 + nonParentSeen parent (set ?V1) us
                  \<le> nonParent parent us + sum_list (map (deg g) N2)"
        and b2: "c2 = (c1 \<or> 2 * length N2 < nonParent parent us + sum_list (map (deg g) N2))"
        by (simp_all add: dfsPost_def)
      let ?N = "u # N1 @ N2"
      have res: "dfsLoop n g v parent (u # us) (V, c) = Some (V @ ?N, c2)"
        using np nv n r1(1) r2(1) by (simp add: sa)
      have p1: "distinct (V @ ?N)" using d2 by simp
      have p2: "set (u # us) \<subseteq> set (V @ ?N)" using s2 by auto
      have p3: "\<forall>x \<in> set ?N. set (nbrs g x) \<subseteq> set (V @ ?N) \<and> (v, x) \<in> (wedges g)\<^sup>*"
      proof
        fix x assume "x \<in> set ?N"
        then consider "x = u" | "x \<in> set N1" | "x \<in> set N2" by auto
        then show "set (nbrs g x) \<subseteq> set (V @ ?N) \<and> (v, x) \<in> (wedges g)\<^sup>*"
        proof cases
          case 1
          with s1 uv show ?thesis by auto
        next
          case 2
          with cl1 have "set (nbrs g x) \<subseteq> set ?V1" "(u, x) \<in> (wedges g)\<^sup>*" by auto
          with uv show ?thesis by (auto intro: converse_rtrancl_into_rtrancl)
        next
          case 3
          with cl2 show ?thesis by auto
        qed
      qed
      (* the counting *)
      have cvu: "count_list (nbrs g u) v = count_list (nbrs g v) u"
        using bal by (simp add: balanced_def)
      have "count_list pre u = 0" using pre(2) nv by (auto simp: count_list_0_iff)
      then have cnt: "count_list (nbrs g v) u = 1 + count_list us u"
        using pre(1) by simp
      have du: "deg g u = nonParent (Some v) (nbrs g u) + (1 + count_list us u)"
        using deg_split [of g u v] cvu cnt by simp
      have "nonParentSeen parent (set V) us + count_list us u \<le> nonParentSeen parent (set ?V1) us"
        by (rule nonParentSeen_grow) (use nv np in auto)
      with a2 have a2': "2 * length N2 + nonParentSeen parent (set V) us + count_list us u
                  \<le> nonParent parent us + sum_list (map (deg g) N2)" by simp
      have np1: "nonParent parent (u # us) = 1 + nonParent parent us"
        using np by (simp add: nonParent_Cons)
      have nps: "nonParentSeen parent (set V) (u # us) = nonParentSeen parent (set V) us"
        using nv by (simp add: nonParentSeen_Cons)
      have sum: "sum_list (map (deg g) ?N) = deg g u + sum_list (map (deg g) N1) + sum_list (map (deg g) N2)"
        by simp
      have len: "length ?N = 1 + length N1 + length N2" by simp
      define L1 where "L1 = length N1"
      define L2 where "L2 = length N2"
      define S1 where "S1 = sum_list (map (deg g) N1)"
      define S2 where "S2 = sum_list (map (deg g) N2)"
      define P1 where "P1 = nonParent (Some v) (nbrs g u)"
      define P2 where "P2 = nonParent parent us"
      define X where "X = nonParentSeen (Some v) (set (V @ [u])) (nbrs g u)"
      define Y where "Y = nonParentSeen parent (set V) us"
      define k where "k = count_list us u"
      have e1: "2 * L1 + X \<le> P1 + S1"
        using a1 by (simp add: L1_def S1_def P1_def X_def)
      have e2: "2 * L2 + Y + k \<le> P2 + S2"
        using a2' by (simp add: L2_def S2_def P2_def Y_def k_def)
      have e3: "c1 = (c \<or> 2 * L1 < P1 + S1)"
        using b1 by (simp add: L1_def S1_def P1_def)
      have e4: "c2 = (c1 \<or> 2 * L2 < P2 + S2)"
        using b2 by (simp add: L2_def S2_def P2_def)
      have "2 * L1 + 2 * L2 + Y \<le> P1 + S1 + P2 + S2"
        using e1 e2 by linarith
      then have q4: "2 * (1 + L1 + L2) + Y \<le> (1 + P2) + (P1 + (1 + k) + S1 + S2)"
        by simp
      have "(2 * L1 < P1 + S1 \<or> 2 * L2 < P2 + S2) =
            (2 * (1 + L1 + L2) < (1 + P2) + (P1 + (1 + k) + S1 + S2))"
      proof
        assume "2 * L1 < P1 + S1 \<or> 2 * L2 < P2 + S2"
        then have "2 * L1 + 2 * L2 < P1 + S1 + P2 + S2"
          using e1 e2 by linarith
        then show "2 * (1 + L1 + L2) < (1 + P2) + (P1 + (1 + k) + S1 + S2)"
          by simp
      next
        assume h: "2 * (1 + L1 + L2) < (1 + P2) + (P1 + (1 + k) + S1 + S2)"
        show "2 * L1 < P1 + S1 \<or> 2 * L2 < P2 + S2"
        proof (rule ccontr)
          assume "\<not> (2 * L1 < P1 + S1 \<or> 2 * L2 < P2 + S2)"
          then have "P1 + S1 \<le> 2 * L1" "P2 + S2 \<le> 2 * L2" by auto
          moreover from h have "2 * L1 + 2 * L2 < P1 + S1 + P2 + S2 + k" by simp
          ultimately show False using e2 by linarith
        qed
      qed
      then have q5: "c2 = (c \<or> 2 * (1 + L1 + L2) < (1 + P2) + (P1 + (1 + k) + S1 + S2))"
        unfolding e4 e3 by blast
      have p4: "2 * length ?N + nonParentSeen parent (set V) (u # us)
                  \<le> nonParent parent (u # us) + sum_list (map (deg g) ?N)"
        unfolding np1 nps sum len du
        using q4 by (simp add: L1_def L2_def S1_def S2_def P1_def P2_def Y_def k_def)
      have p5: "c2 = (c \<or> 2 * length ?N < nonParent parent (u # us) + sum_list (map (deg g) ?N))"
        unfolding np1 sum len du
        using q5 by (simp add: L1_def L2_def S1_def S2_def P1_def P2_def k_def)
      from p1 p2 p3 p4 p5 have "dfsPost g v parent (u # us) V c ?N c2"
        unfolding dfsPost_def by blast
      with res show ?thesis by auto
    qed
  qed
qed


text \<open>What \<open>hasCycleThrough\<close> computes: with \<open>R\<close> the set of nodes connected to the
  start, a cycle is reported exactly when the adjacency entries of \<open>R\<close> number more than
  \<open>2 (|R| - 1)\<close>, that is, when the part of the graph connected to the start is not a tree
  (parallel edges and self-loops included).\<close>

lemma hasCycleThrough_char:
  assumes bal: "balanced g" and s: "truthy s" "hasKey g s"
    and fuel: "card (Range (wedges g)) \<le> n"
  shows "hasCycleThrough n g (Some s) =
     Some (2 * card ((wedges g)\<^sup>* `` {s}) < sum (deg g) ((wedges g)\<^sup>* `` {s}) + 2)"
proof -
  let ?R = "(wedges g)\<^sup>* `` {s}"
  have "card (Range (wedges g) - set [s]) \<le> card (Range (wedges g))"
    by (rule card_mono) (auto simp: finite_Range_wedges)
  with fuel have "dfsPre g s None [] (nbrs g s) (fst ([s], False)) n"
    by (simp add: dfsPre_def)
  from dfsLoop_spec [OF bal this] obtain N' c' where
    r: "dfsLoop n g s None (nbrs g s) ([s], False) = Some ([s] @ N', c')"
       "dfsPost g s None (nbrs g s) [s] False N' c'"
    by auto
  from r(2) have d: "distinct (s # N')"
    and ns: "set (nbrs g s) \<subseteq> set (s # N')"
    and cl: "\<forall>x \<in> set N'. set (nbrs g x) \<subseteq> set (s # N') \<and> (s, x) \<in> (wedges g)\<^sup>*"
    and c: "c' = (2 * length N' < nonParent None (nbrs g s) + sum_list (map (deg g) N'))"
    by (simp_all add: dfsPost_def)
  have closed: "set (nbrs g x) \<subseteq> set (s # N')" if "x \<in> set (s # N')" for x
  proof (cases "x = s")
    case True
    with ns show ?thesis by simp
  next
    case False
    with that have "x \<in> set N'" by simp
    with cl show ?thesis by blast
  qed
  have "t \<in> set (s # N')" if "(s, t) \<in> (wedges g)\<^sup>*" for t
    using that
  proof (induction rule: rtrancl_induct)
    case base
    show ?case by simp
  next
    case (step y z)
    from step(2) have "z \<in> set (nbrs g y)" by (simp add: wedges_nbrs)
    with closed [OF step(3)] show ?case by auto
  qed
  moreover have "(s, t) \<in> (wedges g)\<^sup>*" if "t \<in> set (s # N')" for t
    using that cl by auto
  ultimately have R: "?R = set (s # N')" by auto
  have card: "card ?R = 1 + length N'"
    unfolding R using d distinct_card [of "s # N'"] by simp
  have "sum (deg g) ?R = sum_list (map (deg g) (s # N'))"
    unfolding R using d by (simp only: sum_list_distinct_conv_sum_set)
  then have sum: "sum (deg g) ?R = deg g s + sum_list (map (deg g) N')" by simp
  have "nonParent None (nbrs g s) = deg g s" by (simp add: nonParent_def deg_def)
  with c have "c' = (2 * card ?R < sum (deg g) ?R + 2)"
    unfolding card sum by auto
  with r(1) s show ?thesis
    by (simp add: hasCycleThrough_def setAdd_def)
qed


subsection \<open>The edges of a built graph as multisets\<close>

lemma getOrEmpty_addW:
  "getOrEmpty (addW g a b w) x =
      (if x = b then (if b = a then getOrEmpty g a @ [(b, w)] else getOrEmpty g b) @ [(a, w)]
       else if x = a then getOrEmpty g a @ [(b, w)] else getOrEmpty g x)"
  unfolding addW_def Let_def getOrEmpty_update getOrEmpty_ensure by simp

lemma nbrs_addW:
  "mset (nbrs (addW g a b w) x) =
     mset (nbrs g x) + (if x = a then {#b#} else {#}) + (if x = b then {#a#} else {#})"
  by (simp add: getOrEmpty_addW)

lemma hasKey_addW: "hasKey (addW g a b w) x = (hasKey g x \<or> x = a \<or> x = b)"
  by (auto simp: addW_def Let_def hasKey_update)

lemma balanced_mset:
  "balanced g = (\<forall>a b. count (mset (nbrs g a)) b = count (mset (nbrs g b)) a)"
  by (simp only: balanced_def count_mset)

lemma balanced_addW: "balanced g \<Longrightarrow> balanced (addW g a b w)"
  unfolding balanced_mset nbrs_addW by auto

lemma keyed_addW: "keyed g \<Longrightarrow> keyed (addW g a b w)"
proof -
  assume k: "keyed g"
  have "set (nbrs (addW g a b w) x) =
      set (nbrs g x) \<union> (if x = a then {b} else {}) \<union> (if x = b then {a} else {})" for x
    using arg_cong [OF nbrs_addW [of g a b w x], of set_mset] by (auto split: if_splits)
  with k show ?thesis unfolding keyed_def hasKey_addW by (auto split: if_splits)
qed

lemma sameEdges_addW: "sameEdges g g' \<Longrightarrow> sameEdges (addW g a b w) (addW g' a b w)"
  unfolding sameEdges_def nbrs_addW hasKey_addW by simp

lemma sameEdges_refl: "sameEdges g g"
  by (simp add: sameEdges_def)

text \<open>Whether a wire contributes an edge, and which, does not depend on the graph built
  so far.\<close>

lemma addWire_cases:
  "(\<forall>h. addWire comps al key h w = h) \<or> (\<exists>a b rw. \<forall>h. addWire comps al key h w = addW h a b rw)"
proof -
  let ?geo = "map_option (\<lambda>d. d / PX_PER_M) (pxDistanceBetweenTerminals comps (wa w) (wb w))"
  let ?dm = "case lengthM w of Some l \<Rightarrow> if l > 0 then Some l else ?geo | None \<Rightarrow> ?geo"
  show ?thesis
  proof (cases ?dm)
    case None
    then have "\<forall>h. addWire comps al key h w = h" by (simp add: addWire_def)
    then show ?thesis ..
  next
    case (Some m)
    show ?thesis
    proof (cases "fault w = Some ''open'' \<or>
        \<not> hasType al (termTypeById comps (wa w)) \<or> \<not> hasType al (termTypeById comps (wb w)) \<or>
        \<not> isMatch w key")
      case True
      then have "\<forall>h. addWire comps al key h w = h" by (auto simp: addWire_def)
      then show ?thesis ..
    next
      case False
      with Some have "\<forall>h. addWire comps al key h w = addW h (wa w) (wb w)
          (if fault w = Some ''hr'' then m * rPerMOf w key + 2 * CONTACT_R + 1
           else m * rPerMOf w key + 2 * CONTACT_R)"
        by (simp add: addWire_def Let_def)
      then show ?thesis by blast
    qed
  qed
qed

lemma nbrs_empty: "nbrs [] x = []"
  by (simp add: getOrEmpty_def)

lemma nbrs_addWire:
  "mset (nbrs (addWire comps al key g w) x) =
     mset (nbrs g x) + mset (nbrs (addWire comps al key [] w) x)"
  using addWire_cases [of comps al key w]
proof
  assume a: "\<forall>h. addWire comps al key h w = h"
  show ?thesis by (simp only: a nbrs_empty) simp
next
  assume "\<exists>a b rw. \<forall>h. addWire comps al key h w = addW h a b rw"
  then obtain a b rw where a: "\<forall>h. addWire comps al key h w = addW h a b rw" by blast
  show ?thesis by (simp only: a nbrs_addW nbrs_empty) simp
qed

lemma hasKey_addWire:
  "hasKey (addWire comps al key g w) x = (hasKey g x \<or> hasKey (addWire comps al key [] w) x)"
  using addWire_cases [of comps al key w]
proof
  assume a: "\<forall>h. addWire comps al key h w = h"
  show ?thesis by (simp only: a) (simp add: hasKey_def)
next
  assume "\<exists>a b rw. \<forall>h. addWire comps al key h w = addW h a b rw"
  then obtain a b rw where a: "\<forall>h. addWire comps al key h w = addW h a b rw" by blast
  show ?thesis by (simp only: a hasKey_addW) (simp add: hasKey_def)
qed

lemma nbrs_foldl_addWire:
  "mset (nbrs (foldl (addWire comps al key) g ws) x) =
     mset (nbrs g x) + sum_list (map (\<lambda>w. mset (nbrs (addWire comps al key [] w) x)) ws)"
proof (induction ws arbitrary: g)
  case Nil
  show ?case by simp
next
  case (Cons w ws)
  show ?case
    by (simp only: foldl_Cons Cons.IH nbrs_addWire [of comps al key g w x])
       (simp add: add.assoc)
qed

lemma hasKey_foldl_addWire:
  "hasKey (foldl (addWire comps al key) g ws) x =
     (hasKey g x \<or> (\<exists>w \<in> set ws. hasKey (addWire comps al key [] w) x))"
proof (induction ws arbitrary: g)
  case Nil
  show ?case by simp
next
  case (Cons w ws)
  show ?case
    by (simp only: foldl_Cons Cons.IH hasKey_addWire [of comps al key g w x]) auto
qed

lemma sameEdges_wires:
  assumes "mset ws' = mset ws"
  shows "sameEdges (foldl (addWire comps al key) [] ws') (foldl (addWire comps al key) [] ws)"
proof -
  have "sum_list (map f ws') = sum_list (map f ws)" for f :: "wire \<Rightarrow> string multiset"
  proof -
    have "sum_list (map f ws') = sum_mset (image_mset f (mset ws'))"
      by (simp add: sum_mset_sum_list [symmetric])
    also have "\<dots> = sum_mset (image_mset f (mset ws))" by (simp add: assms)
    also have "\<dots> = sum_list (map f ws)" by (simp add: sum_mset_sum_list [symmetric])
    finally show ?thesis .
  qed
  moreover have "set ws' = set ws" using assms by (rule mset_eq_setD)
  ultimately show ?thesis
    unfolding sameEdges_def nbrs_foldl_addWire hasKey_foldl_addWire by simp
qed

lemma foldl_rel:
  assumes "Q s s'" and "\<And>s s' x. Q s s' \<Longrightarrow> Q (f s x) (f s' x)"
  shows "Q (foldl f s xs) (foldl f s' xs)"
  using assms(1) by (induction xs arbitrary: s s') (auto intro: assms(2))

lemma sameEdges_addWeightedLink:
  "sameEdges g g' \<Longrightarrow> sameEdges (addWeightedLink al ts g l) (addWeightedLink al ts g' l)"
  by (auto simp: addWeightedLink_def sameEdges_addW split: option.splits)

lemma sameEdges_build:
  assumes "mset wires' = mset wires"
  shows "sameEdges (buildWeightedSubgraph comps wires' al key)
           (buildWeightedSubgraph comps wires al key)"
proof -
  have 2: "sameEdges (foldl (addWeightedLink al ts) g ls) (foldl (addWeightedLink al ts) g' ls)"
    if "sameEdges g g'" for g g' ts ls
    using that by (rule foldl_rel [where Q = sameEdges]) (rule sameEdges_addWeightedLink)
  show ?thesis
    unfolding buildWeightedSubgraph_def Let_def
    by (rule foldl_rel [where Q = sameEdges, OF sameEdges_wires [OF assms]]) (rule 2)
qed


lemma balanced_empty: "balanced []"
  by (simp add: balanced_def getOrEmpty_def)

lemma keyed_empty: "keyed []"
  by (simp add: keyed_def getOrEmpty_def)

lemma balanced_addWire: "balanced g \<Longrightarrow> balanced (addWire comps al key g w)"
  using addWire_cases [of comps al key w] by (auto simp: balanced_addW)

lemma keyed_addWire: "keyed g \<Longrightarrow> keyed (addWire comps al key g w)"
  using addWire_cases [of comps al key w] by (auto simp: keyed_addW)

lemma balanced_addWeightedLink: "balanced g \<Longrightarrow> balanced (addWeightedLink al ts g l)"
  by (auto simp: addWeightedLink_def balanced_addW split: option.splits)

lemma keyed_addWeightedLink: "keyed g \<Longrightarrow> keyed (addWeightedLink al ts g l)"
  by (auto simp: addWeightedLink_def keyed_addW split: option.splits)

lemma balanced_build: "balanced (buildWeightedSubgraph comps wires al key)"
proof -
  have 1: "balanced (foldl (addWire comps al key) [] wires)"
    by (rule foldl_preserves) (simp_all add: balanced_empty balanced_addWire)
  have 2: "balanced (foldl (addWeightedLink al ts) g ls)" if "balanced g" for g ts ls
    using that by (rule foldl_preserves) (simp add: balanced_addWeightedLink)
  show ?thesis
    unfolding buildWeightedSubgraph_def Let_def
    by (rule foldl_preserves) (simp_all add: 1 2)
qed

lemma keyed_build: "keyed (buildWeightedSubgraph comps wires al key)"
proof -
  have 1: "keyed (foldl (addWire comps al key) [] wires)"
    by (rule foldl_preserves) (simp_all add: keyed_empty keyed_addWire)
  have 2: "keyed (foldl (addWeightedLink al ts) g ls)" if "keyed g" for g ts ls
    using that by (rule foldl_preserves) (simp add: keyed_addWeightedLink)
  show ?thesis
    unfolding buildWeightedSubgraph_def Let_def
    by (rule foldl_preserves) (simp_all add: 1 2)
qed

lemma keyed_card: 
  assumes "keyed g"
  shows "card (Range (wedges g)) \<le> length g"
proof -
  have "Range (wedges g) \<subseteq> fst ` set g"
    using assms by (auto simp: keyed_def wedges_def hasKey_def)
  then have "card (Range (wedges g)) \<le> card (fst ` set g)"
    by (intro card_mono) auto
  also have "\<dots> \<le> card (set g)" by (rule card_image_le) simp
  also have "\<dots> \<le> length g" by (rule card_length)
  finally show ?thesis .
qed

lemma sameEdges_wedges: "sameEdges g g' \<Longrightarrow> wedges g = wedges g'"
proof -
  assume a: "sameEdges g g'"
  have "set (nbrs g x) = set (nbrs g' x)" for x
    using a mset_eq_setD [of "nbrs g x" "nbrs g' x"] by (simp add: sameEdges_def)
  then show ?thesis unfolding wedges_def by auto
qed

lemma sameEdges_deg: "sameEdges g g' \<Longrightarrow> deg g = deg g'"
proof
  fix x assume a: "sameEdges g g'"
  then have "size (mset (nbrs g x)) = size (mset (nbrs g' x))"
    by (simp only: sameEdges_def)
  then show "deg g x = deg g' x" by (simp add: deg_def)
qed

lemma sameEdges_hasCycleThrough:
  assumes se: "sameEdges g' g" and bal: "balanced g" "balanced g'"
    and fuel: "card (Range (wedges g)) \<le> n"
  shows "hasCycleThrough n g' s = hasCycleThrough n g s \<and> hasCycleThrough n g s \<noteq> None"
proof (cases s)
  case None
  then show ?thesis by (simp add: hasCycleThrough_def)
next
  case (Some i)
  from se have k: "hasKey g' i = hasKey g i" by (simp add: sameEdges_def)
  show ?thesis
  proof (cases "truthy i \<and> hasKey g i")
    case False
    with Some k show ?thesis by (auto simp: hasCycleThrough_def)
  next
    case True
    note w = sameEdges_wedges [OF se] and d = sameEdges_deg [OF se]
    from fuel w have fuel': "card (Range (wedges g')) \<le> n" by simp
    from True k have t: "truthy i" "hasKey g i" "hasKey g' i" by auto
    show ?thesis
      unfolding Some hasCycleThrough_char [OF bal(1) t(1,2) fuel]
        hasCycleThrough_char [OF bal(2) t(1,3) fuel'] w d by simp
  qed
qed

text \<open>Reversing the direction in which a wire was drawn does not change the edges.\<close>

lemma pxDistance_commute:
  "pxDistanceBetweenTerminals comps b a = pxDistanceBetweenTerminals comps a b"
proof -
  have "hypot (x' - x) (y' - y) = hypot (x - x') (y - y')" for x x' y y' :: real
  proof -
    have "(x' - x) * (x' - x) = (x - x') * (x - x')" "(y' - y) * (y' - y) = (y - y') * (y - y')"
      by (simp_all add: algebra_simps)
    then show ?thesis by (simp only: hypot_def)
  qed
  then show ?thesis
    by (auto simp: pxDistanceBetweenTerminals_def split: option.splits)
qed

lemma addWire_weight:
  "addWire comps al key h w =
     (case wireWeight comps al key w of None \<Rightarrow> h | Some rw \<Rightarrow> addW h (wa w) (wb w) rw)"
proof -
  let ?geo = "map_option (\<lambda>d. d / PX_PER_M) (pxDistanceBetweenTerminals comps (wa w) (wb w))"
  let ?dm = "case lengthM w of Some l \<Rightarrow> if l > 0 then Some l else ?geo | None \<Rightarrow> ?geo"
  show ?thesis
  proof (cases ?dm)
    case None
    then show ?thesis by (simp add: addWire_def wireWeight_def)
  next
    case (Some m)
    then show ?thesis by (simp add: addWire_def wireWeight_def Let_def)
  qed
qed

lemma wireWeight_flip: "wireWeight comps al key (flipWire w) = wireWeight comps al key w"
proof -
  have f: "wa (flipWire w) = wb w" "wb (flipWire w) = wa w" "fault (flipWire w) = fault w"
    "lengthM (flipWire w) = lengthM w" "isMatch (flipWire w) key = isMatch w key"
    "rPerMOf (flipWire w) key = rPerMOf w key"
    by (simp_all add: flipWire_def isMatch_def rPerMOf_def)
  show ?thesis
    unfolding wireWeight_def f pxDistance_commute [of comps "wb w" "wa w"]
    by (rule if_cong) auto
qed

lemma addWire_flip:
  "sameEdges (addWire comps al key [] (flipWire w)) (addWire comps al key [] w)"
proof -
  have se: "sameEdges (addW [] b a r) (addW [] a b r)" for a b r
    unfolding sameEdges_def nbrs_addW hasKey_addW by auto
  show ?thesis
  proof (cases "wireWeight comps al key w")
    case None
    then show ?thesis by (simp add: addWire_weight wireWeight_flip sameEdges_refl)
  next
    case (Some rw)
    have "wa (flipWire w) = wb w" "wb (flipWire w) = wa w" by (simp_all add: flipWire_def)
    then show ?thesis
      unfolding addWire_weight wireWeight_flip Some by (simp add: se)
  qed
qed

lemma sameEdges_wires_flip:
  assumes "mset ws' = mset (map (\<lambda>w. if w \<in> F then flipWire w else w) ws)"
  shows "sameEdges (foldl (addWire comps al key) [] ws') (foldl (addWire comps al key) [] ws)"
proof -
  let ?phi = "\<lambda>w. if w \<in> F then flipWire w else w"
  let ?aw = "addWire comps al key []"
  have 1: "sameEdges (foldl (addWire comps al key) [] ws')
             (foldl (addWire comps al key) [] (map ?phi ws))"
    by (rule sameEdges_wires [OF assms])
  have c: "sameEdges (?aw (?phi w)) (?aw w)" for w
    by (simp add: addWire_flip sameEdges_refl)
  have nb: "sum_list (map (\<lambda>w. mset (nbrs (?aw w) x)) (map ?phi ws)) =
            sum_list (map (\<lambda>w. mset (nbrs (?aw w) x)) ws)" for x
  proof -
    have "mset (nbrs (?aw (?phi w)) x) = mset (nbrs (?aw w) x)" for w
      using c [of w] by (simp only: sameEdges_def)
    then have "map (\<lambda>w. mset (nbrs (?aw w) x)) (map ?phi ws) = map (\<lambda>w. mset (nbrs (?aw w) x)) ws"
      by (simp only: map_map comp_def)
    then show ?thesis by (rule arg_cong)
  qed
  have hk: "(\<exists>w \<in> set (map ?phi ws). hasKey (?aw w) x) = (\<exists>w \<in> set ws. hasKey (?aw w) x)" for x
  proof -
    have "hasKey (?aw (?phi w)) x = hasKey (?aw w) x" for w
      using c [of w] by (simp only: sameEdges_def)
    then show ?thesis by (simp only: set_map bex_simps(7))
  qed
  have "sameEdges (foldl (addWire comps al key) [] (map ?phi ws))
             (foldl (addWire comps al key) [] ws)"
    unfolding sameEdges_def nbrs_foldl_addWire hasKey_foldl_addWire nb hk by simp
  with 1 show ?thesis by (simp add: sameEdges_def)
qed


lemma hasCycleThrough_sameEdges_build:
  assumes se: "sameEdges (foldl (addWire comps al key) [] wires')
                 (foldl (addWire comps al key) [] wires)"
    and fuel: "length (buildWeightedSubgraph comps wires al key) \<le> n"
  shows "hasCycleThrough n (buildWeightedSubgraph comps wires' al key) s =
           hasCycleThrough n (buildWeightedSubgraph comps wires al key) s \<and>
         hasCycleThrough n (buildWeightedSubgraph comps wires al key) s \<noteq> None"
proof -
  have 2: "sameEdges (foldl (addWeightedLink al ts) g ls) (foldl (addWeightedLink al ts) g' ls)"
    if "sameEdges g g'" for g g' ts ls
    using that by (rule foldl_rel [where Q = sameEdges]) (rule sameEdges_addWeightedLink)
  have b: "sameEdges (buildWeightedSubgraph comps wires' al key)
             (buildWeightedSubgraph comps wires al key)"
    unfolding buildWeightedSubgraph_def Let_def
    by (rule foldl_rel [where Q = sameEdges, OF se]) (rule 2)
  have "card (Range (wedges (buildWeightedSubgraph comps wires al key))) \<le> n"
    using keyed_card [OF keyed_build, of comps wires al key] fuel by simp
  with b show ?thesis
    by (intro sameEdges_hasCycleThrough balanced_build)
qed

lemma ring_detection_direction_independent:
  assumes "mset wires' = mset (map (\<lambda>w. if w \<in> F then flipWire w else w) wires)"
    and "length (buildWeightedSubgraph comps wires allowed key) \<le> n"
  shows "hasCycleThrough n (buildWeightedSubgraph comps wires' allowed key) s =
           hasCycleThrough n (buildWeightedSubgraph comps wires allowed key) s \<and>
         hasCycleThrough n (buildWeightedSubgraph comps wires allowed key) s \<noteq> None"
  by (rule hasCycleThrough_sameEdges_build [OF sameEdges_wires_flip [OF assms(1)] assms(2)])

lemmas wbuild_simps = buildWeightedSubgraph_def addWire_def addW_def isMatch_def rPerMOf_def
  getRPerM_def CONTACT_R_def termTypeById_def hasType_def LineTermTypes_def hasKey_def
  getOrEmpty_def linksOf_def Let_def

lemma ex_ring_graph:
  "buildWeightedSubgraph [exSupply, exSocketA, exSocketB] exRing LineTermTypes ''L'' =
     [(''sL'', [(''aL'', 1005 / 10000), (''bL'', 1005 / 10000)]),
      (''aL'', [(''sL'', 1005 / 10000), (''bL'', 1005 / 10000)]),
      (''bL'', [(''aL'', 1005 / 10000), (''sL'', 1005 / 10000)])]"
  by (simp add: exRing_def exSupply_def exSocketA_def exSocketB_def exWire_def wbuild_simps)

lemma ex_ring_graph_rev:
  "buildWeightedSubgraph [exSupply, exSocketA, exSocketB] (rev exRing) LineTermTypes ''L'' =
     [(''bL'', [(''sL'', 1005 / 10000), (''aL'', 1005 / 10000)]),
      (''sL'', [(''bL'', 1005 / 10000), (''aL'', 1005 / 10000)]),
      (''aL'', [(''bL'', 1005 / 10000), (''sL'', 1005 / 10000)])]"
  by (simp add: exRing_def exSupply_def exSocketA_def exSocketB_def exWire_def wbuild_simps)

text \<open>
  Claim C5. Ring detection is order-independent: for two wire collections with the same
  wires in different list orders, \<open>hasCycleThrough\<close> on the family graph built from each
  reports the same ring status, for every conductor family (\<open>allowed\<close>, \<open>key\<close>) and every
  start terminal. The recursion bound \<open>n\<close> only has to reach the number of nodes of the
  graph; then the search returns. (Lemma \<open>ring_detection_direction_independent\<close> adds
  that wires may also be drawn in the opposite direction.)
\<close>

theorem ring_detection_order_independent:
  assumes "mset wires' = mset wires"
    and "length (buildWeightedSubgraph comps wires allowed key) \<le> n"
  shows "hasCycleThrough n (buildWeightedSubgraph comps wires' allowed key) s =
           hasCycleThrough n (buildWeightedSubgraph comps wires allowed key) s \<and>
         hasCycleThrough n (buildWeightedSubgraph comps wires allowed key) s \<noteq> None"
  by (rule hasCycleThrough_sameEdges_build [OF sameEdges_wires [OF assms(1)] assms(2)])

theorem ring_detection_order_independent_witness:
  "mset (rev exRing) = mset exRing \<and>
   length (buildWeightedSubgraph [exSupply, exSocketA, exSocketB] exRing LineTermTypes ''L'') \<le> 3 \<and>
   hasCycleThrough 3
     (buildWeightedSubgraph [exSupply, exSocketA, exSocketB] (rev exRing) LineTermTypes ''L'')
     (Some ''sL'') = Some True \<and>
   hasCycleThrough 3
     (buildWeightedSubgraph [exSupply, exSocketA, exSocketB] exRing LineTermTypes ''L'')
     (Some ''sL'') = Some True"
proof -
  have a: "mset (rev exRing) = mset exRing" by simp
  have b: "length (buildWeightedSubgraph [exSupply, exSocketA, exSocketB] exRing
             LineTermTypes ''L'') \<le> 3"
    unfolding ex_ring_graph by simp
  have c: "hasCycleThrough 3
     (buildWeightedSubgraph [exSupply, exSocketA, exSocketB] exRing LineTermTypes ''L'')
     (Some ''sL'') = Some True"
    unfolding ex_ring_graph
    by (simp add: hasCycleThrough_def truthy_def hasKey_def getOrEmpty_def setAdd_def
        eval_nat_numeral)
  from ring_detection_order_independent [OF a b, of "Some ''sL''"] c
  have "hasCycleThrough 3
     (buildWeightedSubgraph [exSupply, exSocketA, exSocketB] (rev exRing) LineTermTypes ''L'')
     (Some ''sL'') = Some True" by simp
  with a b c show ?thesis by blast
qed


end
